theory Spec2Isabelle
  imports Main
begin

section \<open>The state model (src/connect4/game.py)\<close>

text \<open>
  Cells and players are Python integers: \<open>+1\<close> and \<open>-1\<close> are the two players, \<open>0\<close> is
  the empty cell. The board is a list of rows, row \<open>0\<close> being the top. The dimensions and
  the win length are natural numbers: the constructor rejects \<open>rows \<le> 0\<close>, \<open>cols \<le> 0\<close> and
  \<open>connect < 3\<close>. A move record carries Python integers, so that \<open>undo_disc\<close> can be given
  any record, also one with negative (wrapping) indices.
\<close>

datatype error = ValueError string | RuntimeError string | IndexError | TypeError

record MoveResult =
  row :: int
  col :: int
  player :: int

record ConnectFour =
  rows :: nat
  cols :: nat
  connect :: nat
  board :: "int list list"
  current_player :: int
  last_move :: "MoveResult option"

text \<open>\<open>ConnectFour.__init__\<close>: an empty board, player 1 to move, no last move.\<close>

definition new_game :: "int \<Rightarrow> int \<Rightarrow> int \<Rightarrow> error + ConnectFour" where
  "new_game nr nc k =
     (if nr \<le> 0 \<or> nc \<le> 0 then Inl (ValueError ''rows and cols must be positive.'')
      else if k < 3 then Inl (ValueError ''connect should be >= 3.'')
      else Inr \<lparr> rows = nat nr, cols = nat nc, connect = nat k,
                 board = replicate (nat nr) (replicate (nat nc) 0),
                 current_player = 1, last_move = None \<rparr>)"

text \<open>
  The shape every constructed state has and every operation keeps: \<open>rows\<close> rows of
  \<open>cols\<close> cells each, both positive, and a win length of at least 3. Under it every
  index the operations below compute is in range.
\<close>

definition wf_game :: "ConnectFour \<Rightarrow> bool" where
  "wf_game g \<longleftrightarrow>
     0 < rows g \<and> 0 < cols g \<and> 3 \<le> connect g \<and>
     length (board g) = rows g \<and> list_all (\<lambda>r. length r = cols g) (board g)"

text \<open>\<open>actions\<close>: the columns whose top cell is empty, in ascending order.\<close>

definition actions :: "ConnectFour \<Rightarrow> int list" where
  "actions g = map int (filter (\<lambda>c. board g ! 0 ! c = 0) [0..<cols g])"

definition is_full :: "ConnectFour \<Rightarrow> bool" where
  "is_full g = list_all (\<lambda>c. board g ! 0 ! c \<noteq> 0) [0..<cols g]"

text \<open>
  The loop \<open>for r in range(rows - 1, -1, -1)\<close> of \<open>drop_disc\<close>: the first argument counts
  the rows still to try, so \<open>lowest_empty b c (Suc r)\<close> looks at row \<open>r\<close> first.
\<close>

fun lowest_empty :: "int list list \<Rightarrow> nat \<Rightarrow> nat \<Rightarrow> nat option" where
  "lowest_empty b c 0 = None"
| "lowest_empty b c (Suc r) = (if b ! r ! c = 0 then Some r else lowest_empty b c r)"

text \<open>
  \<open>drop_disc\<close> returns the outcome together with the state after the call: every
  \<open>raise\<close> comes before the first write, so a failed call leaves the state as it was.
\<close>

definition drop_disc :: "ConnectFour \<Rightarrow> int \<Rightarrow> int option \<Rightarrow> (error + MoveResult) \<times> ConnectFour" where
  "drop_disc g c popt =
     (let p = (case popt of None \<Rightarrow> current_player g | Some q \<Rightarrow> q) in
      if \<not> (0 \<le> c \<and> c < int (cols g)) then (Inl (ValueError ''Column out of bounds.''), g)
      else if board g ! 0 ! nat c \<noteq> 0 then (Inl (ValueError ''Column is full.''), g)
      else
        (case lowest_empty (board g) (nat c) (rows g) of
           None \<Rightarrow> (Inl (RuntimeError ''Failed to drop disc.''), g)
         | Some r \<Rightarrow>
             let mv = \<lparr> row = int r, col = c, player = p \<rparr> in
             (Inr mv,
              g \<lparr> board := (board g)[r := (board g ! r)[nat c := p]],
                  last_move := Some mv,
                  current_player := (if p = current_player g then - current_player g
                                     else current_player g) \<rparr>)))"

text \<open>Python's list indexing: a negative index counts from the end, anything else raises.\<close>

definition py_index :: "nat \<Rightarrow> int \<Rightarrow> nat option" where
  "py_index n i =
     (if 0 \<le> i \<and> i < int n then Some (nat i)
      else if - int n \<le> i \<and> i < 0 then Some (nat (int n + i))
      else None)"

definition undo_disc :: "ConnectFour \<Rightarrow> MoveResult \<Rightarrow> (error + unit) \<times> ConnectFour" where
  "undo_disc g mv =
     (case py_index (length (board g)) (row mv) of
        None \<Rightarrow> (Inl IndexError, g)
      | Some r \<Rightarrow>
          (case py_index (length (board g ! r)) (col mv) of
             None \<Rightarrow> (Inl IndexError, g)
           | Some c \<Rightarrow>
               if board g ! r ! c \<noteq> player mv
               then (Inl (ValueError ''Undo mismatch: board cell does not match the move.''), g)
               else (Inr (),
                     g \<lparr> board := (board g)[r := (board g ! r)[c := 0]],
                         last_move := None,
                         current_player := player mv \<rparr>)))"

text \<open>
  \<open>_count_dir\<close>: the \<open>while\<close> loop walking from a cell in direction \<open>(dr, dc)\<close>, with the
  running cell \<open>(rr, cc)\<close> and the running count as arguments. The source calls it with
  the eight unit directions only; the test \<open>dr \<noteq> 0 \<or> dc \<noteq> 0\<close> is there so that the model
  is a total function (with the null direction the Python loop would not end), and it
  is true at every call that \<open>is_winning_move\<close> makes.
\<close>

function count_dir_loop :: "ConnectFour \<Rightarrow> int \<Rightarrow> int \<Rightarrow> int \<Rightarrow> int \<Rightarrow> int \<Rightarrow> nat \<Rightarrow> nat" where
  "count_dir_loop g rr cc p dr dc cnt =
     (if (dr \<noteq> 0 \<or> dc \<noteq> 0) \<and> 0 \<le> rr \<and> rr < int (rows g) \<and> 0 \<le> cc \<and> cc < int (cols g)
         \<and> board g ! nat rr ! nat cc = p
      then count_dir_loop g (rr + dr) (cc + dc) p dr dc (cnt + 1)
      else cnt)"
  by pat_completeness auto
termination
  by (relation "measure (\<lambda>(g, rr, cc, p, dr, dc, cnt).
        if 0 < dr then nat (int (rows g) - rr)
        else if dr < 0 then nat (rr + 1)
        else if 0 < dc then nat (int (cols g) - cc)
        else nat (cc + 1))") auto

definition count_dir :: "ConnectFour \<Rightarrow> int \<Rightarrow> int \<Rightarrow> int \<Rightarrow> int \<Rightarrow> int \<Rightarrow> nat" where
  "count_dir g r c p dr dc = count_dir_loop g (r + dr) (c + dc) p dr dc 0"

definition directions :: "(int \<times> int) list" where
  "directions = [(0, 1), (1, 0), (1, 1), (-1, 1)]"

definition is_winning_move :: "ConnectFour \<Rightarrow> int \<Rightarrow> int \<Rightarrow> int \<Rightarrow> bool" where
  "is_winning_move g r c p =
     list_ex (\<lambda>(dr, dc). connect g \<le> 1 + count_dir g r c p dr dc + count_dir g r c p (- dr) (- dc))
       directions"

definition winner :: "ConnectFour \<Rightarrow> int" where
  "winner g =
     (case last_move g of
        None \<Rightarrow> 0
      | Some mv \<Rightarrow> if is_winning_move g (row mv) (col mv) (player mv) then player mv else 0)"

definition terminal :: "ConnectFour \<Rightarrow> bool" where
  "terminal g \<longleftrightarrow> winner g \<noteq> 0 \<or> is_full g"


section \<open>The evaluator (src/connect4/evaluation.py)\<close>

definition WIN_SCORE :: int where
  "WIN_SCORE = 10 ^ 9"

text \<open>The nested \<open>score_window\<close>; \<open>player\<close> is the perspective player of \<open>evaluate\<close>.\<close>

definition score_window :: "int \<Rightarrow> int list \<Rightarrow> int" where
  "score_window p window =
     (let p_count = count_list window p;
          o_count = count_list window (- p);
          e_count = count_list window 0 in
      if p_count > 0 \<and> o_count > 0 then 0
      else if p_count = 4 then 100000
      else if p_count = 3 \<and> e_count = 1 then 200
      else if p_count = 2 \<and> e_count = 2 then 30
      else if o_count = 4 then - 100000
      else if o_count = 3 \<and> e_count = 1 then - 220
      else if o_count = 2 \<and> e_count = 2 then - 35
      else 0)"

text \<open>The centre-column loop: \<open>+1\<close> for a disc of the player, \<open>-1\<close> for one of the opponent.\<close>

definition center_delta :: "ConnectFour \<Rightarrow> int \<Rightarrow> int" where
  "center_delta g p =
     (\<Sum>r\<leftarrow>[0..<rows g].
        if board g ! r ! (cols g div 2) = p then 1
        else if board g ! r ! (cols g div 2) = - p then - 1
        else 0)"

text \<open>
  The windows of the four loops, in the order the loops build them. \<open>range(cols - 3)\<close> is
  empty when \<open>cols < 3\<close>, as \<open>[0..<cols g - 3]\<close> is.
\<close>

definition horizontal_windows :: "ConnectFour \<Rightarrow> int list list" where
  "horizontal_windows g =
     concat (map (\<lambda>r. map (\<lambda>c. map (\<lambda>i. board g ! r ! (c + i)) [0..<4]) [0..<cols g - 3])
       [0..<rows g])"

definition vertical_windows :: "ConnectFour \<Rightarrow> int list list" where
  "vertical_windows g =
     concat (map (\<lambda>c. map (\<lambda>r. map (\<lambda>i. board g ! (r + i) ! c) [0..<4]) [0..<rows g - 3])
       [0..<cols g])"

definition diag_down_windows :: "ConnectFour \<Rightarrow> int list list" where
  "diag_down_windows g =
     concat (map (\<lambda>r. map (\<lambda>c. map (\<lambda>i. board g ! (r + i) ! (c + i)) [0..<4]) [0..<cols g - 3])
       [0..<rows g - 3])"

definition diag_up_windows :: "ConnectFour \<Rightarrow> int list list" where
  "diag_up_windows g =
     concat (map (\<lambda>r. map (\<lambda>c. map (\<lambda>i. board g ! (r - i) ! (c + i)) [0..<4]) [0..<cols g - 3])
       [3..<rows g])"

definition windows :: "ConnectFour \<Rightarrow> int list list" where
  "windows g = horizontal_windows g @ vertical_windows g @ diag_down_windows g @ diag_up_windows g"

definition evaluate :: "ConnectFour \<Rightarrow> int \<Rightarrow> int" where
  "evaluate g p =
     (let w = winner g in
      if w = p then WIN_SCORE
      else if w = - p then - WIN_SCORE
      else if is_full g then 0
      else 0 + 6 * center_delta g p
           + (\<Sum>w\<leftarrow>horizontal_windows g. score_window p w)
           + (\<Sum>w\<leftarrow>vertical_windows g. score_window p w)
           + (\<Sum>w\<leftarrow>diag_down_windows g. score_window p w)
           + (\<Sum>w\<leftarrow>diag_up_windows g. score_window p w))"

subsection \<open>The evaluator as the specification words it\<close>

text \<open>
  The weighting table, by the three counts of a window: own discs, opposing discs,
  empty cells.
\<close>

definition window_score_spec :: "int \<Rightarrow> int list \<Rightarrow> int" where
  "window_score_spec p w =
     (let counts = (count_list w p, count_list w (- p), count_list w 0) in
      if counts = (4, 0, 0) then 100000
      else if counts = (3, 0, 1) then 200
      else if counts = (2, 0, 2) then 30
      else if counts = (0, 4, 0) then - 100000
      else if counts = (0, 3, 1) then - 220
      else if counts = (0, 2, 2) then - 35
      else 0)"

text \<open>
  Every window of \<open>k\<close> cells in the four line directions: from each cell of the board and
  in each direction, the \<open>k\<close> cells starting there, kept when all of them lie on the board.
\<close>

definition on_board :: "ConnectFour \<Rightarrow> int \<times> int \<Rightarrow> bool" where
  "on_board g = (\<lambda>(r, c). 0 \<le> r \<and> r < int (rows g) \<and> 0 \<le> c \<and> c < int (cols g))"

definition line_cells :: "nat \<Rightarrow> int \<Rightarrow> int \<Rightarrow> int \<times> int \<Rightarrow> (int \<times> int) list" where
  "line_cells k r c = (\<lambda>(dr, dc). map (\<lambda>i. (r + int i * dr, c + int i * dc)) [0..<k])"

definition windows_spec :: "nat \<Rightarrow> ConnectFour \<Rightarrow> int list list" where
  "windows_spec k g =
     concat (map (\<lambda>d.
       concat (map (\<lambda>r.
         concat (map (\<lambda>c.
           if list_all (on_board g) (line_cells k (int r) (int c) d)
           then [map (\<lambda>(r', c'). board g ! nat r' ! nat c') (line_cells k (int r) (int c) d)]
           else [])
           [0..<cols g]))
         [0..<rows g]))
       directions)"

definition center_spec :: "ConnectFour \<Rightarrow> int \<Rightarrow> int" where
  "center_spec g p =
     6 * int (length (filter (\<lambda>r. board g ! r ! (cols g div 2) = p) [0..<rows g]))
     - 6 * int (length (filter (\<lambda>r. board g ! r ! (cols g div 2) = - p) [0..<rows g]))"

definition evaluate_spec :: "ConnectFour \<Rightarrow> int \<Rightarrow> int" where
  "evaluate_spec g p = center_spec g p + (\<Sum>w\<leftarrow>windows_spec 4 g. window_score_spec p w)"

text \<open>The same with windows as long as the win length, as the specification generalises it.\<close>

definition evaluate_connect_spec :: "ConnectFour \<Rightarrow> int \<Rightarrow> int" where
  "evaluate_connect_spec g p =
     center_spec g p + (\<Sum>w\<leftarrow>windows_spec (connect g) g. score_window p w)"


section \<open>Metrics and the tracer (src/connect4/search.py)\<close>

text \<open>\<open>time_sec\<close> is wall-clock time and is left out of the model.\<close>

record SearchMetrics =
  nodes_expanded :: nat
  max_depth_reached :: int

record TraceNode =
  tn_id :: nat
  tn_parent :: "nat option"
  tn_move :: "int option"
  tn_depth :: int
  tn_turn_player :: int
  tn_kind :: string
  tn_alpha :: "int option"
  tn_beta :: "int option"
  tn_value :: "int option"
  tn_pruned :: bool

record SearchTracer =
  trace_depth :: int
  nodes :: "TraceNode list"
  next_id :: nat

definition new_node ::
  "SearchTracer \<Rightarrow> nat option \<Rightarrow> int option \<Rightarrow> int \<Rightarrow> int \<Rightarrow> string \<Rightarrow> int option \<Rightarrow> int option \<Rightarrow> bool
     \<Rightarrow> nat \<times> SearchTracer" where
  "new_node tr parent mv dep turn knd al be pr =
     (next_id tr,
      tr \<lparr> next_id := next_id tr + 1,
           nodes := nodes tr @
             [\<lparr> tn_id = next_id tr, tn_parent = parent, tn_move = mv, tn_depth = dep,
                tn_turn_player = turn, tn_kind = knd, tn_alpha = al, tn_beta = be,
                tn_value = None, tn_pruned = pr \<rparr>] \<rparr>)"

text \<open>\<open>set_value\<close> writes to the first node with the given id and returns.\<close>

fun set_value_nodes :: "TraceNode list \<Rightarrow> nat \<Rightarrow> int \<Rightarrow> int option \<Rightarrow> int option \<Rightarrow> TraceNode list" where
  "set_value_nodes [] i v al be = []"
| "set_value_nodes (n # ns) i v al be =
     (if tn_id n = i
      then n \<lparr> tn_value := Some v,
               tn_alpha := (case al of None \<Rightarrow> tn_alpha n | Some x \<Rightarrow> Some x),
               tn_beta := (case be of None \<Rightarrow> tn_beta n | Some x \<Rightarrow> Some x) \<rparr> # ns
      else n # set_value_nodes ns i v al be)"

definition set_value :: "SearchTracer \<Rightarrow> nat \<Rightarrow> int \<Rightarrow> int option \<Rightarrow> int option \<Rightarrow> SearchTracer" where
  "set_value tr i v al be = tr \<lparr> nodes := set_value_nodes (nodes tr) i v al be \<rparr>"

section \<open>The search engine (src/connect4/search.py)\<close>

text \<open>
  What the two decision functions and their nested functions share and mutate: the
  game (in place), the metrics of the call, and the caller's tracer, if any.
\<close>

record search_state =
  game :: ConnectFour
  metrics :: SearchMetrics
  tracer :: "SearchTracer option"

text \<open>\<open>INF = 10**18\<close> of \<open>alphabeta_decision\<close>; \<open>minimax_decision\<close> writes the same literal.\<close>

definition INF_VAL :: int where
  "INF_VAL = 10 ^ 18"

definition terminal_value :: "ConnectFour \<Rightarrow> int \<Rightarrow> int" where
  "terminal_value g ai =
     (let w = winner g in
      if w = ai then WIN_SCORE
      else if w = - ai then - WIN_SCORE
      else 0)"

text \<open>The first two lines of every \<open>max_value\<close> and \<open>min_value\<close>.\<close>

definition enter_node :: "int \<Rightarrow> search_state \<Rightarrow> search_state" where
  "enter_node d s =
     s \<lparr> metrics := (metrics s)
           \<lparr> nodes_expanded := nodes_expanded (metrics s) + 1,
             max_depth_reached := max (max_depth_reached (metrics s)) d \<rparr> \<rparr>"

definition node_kind :: "ConnectFour \<Rightarrow> int \<Rightarrow> string" where
  "node_kind g ai = (if current_player g = ai then ''MAX'' else ''MIN'')"

text \<open>
  The node of a child just played: recorded when there is a tracer and \<open>within\<close> holds
  of it (\<open>d < tracer.trace_depth\<close> in the nested functions, \<open>tracer.trace_depth >= 1\<close>
  at the root); \<open>dep\<close> is the child's depth.
\<close>

definition trace_child ::
  "(SearchTracer \<Rightarrow> bool) \<Rightarrow> int \<Rightarrow> nat option \<Rightarrow> int \<Rightarrow> int \<Rightarrow> int option \<Rightarrow> int option
     \<Rightarrow> search_state \<Rightarrow> nat option \<times> search_state" where
  "trace_child within ai node_id a dep al be s =
     (case tracer s of
        None \<Rightarrow> (None, s)
      | Some tr \<Rightarrow>
          if within tr
          then (let (cid, tr') = new_node tr node_id (Some a) dep (current_player (game s))
                                   (node_kind (game s) ai) al be False
                in (Some cid, s \<lparr> tracer := Some tr' \<rparr>))
          else (None, s))"

text \<open>The placeholders of the siblings \<open>acts[i+1:]\<close> that a cutoff skips.\<close>

fun pruned_nodes :: "SearchTracer \<Rightarrow> nat option \<Rightarrow> int list \<Rightarrow> int \<Rightarrow> int \<Rightarrow> int \<Rightarrow> int \<Rightarrow> SearchTracer" where
  "pruned_nodes tr node_id [] dep turn al be = tr"
| "pruned_nodes tr node_id (a # rest) dep turn al be =
     pruned_nodes (snd (new_node tr node_id (Some a) dep turn ''PRUNED'' (Some al) (Some be) True))
       node_id rest dep turn al be"

definition trace_pruned ::
  "(SearchTracer \<Rightarrow> bool) \<Rightarrow> nat option \<Rightarrow> int list \<Rightarrow> int \<Rightarrow> int \<Rightarrow> int \<Rightarrow> search_state \<Rightarrow> search_state" where
  "trace_pruned within node_id rest dep al be s =
     (case tracer s of
        None \<Rightarrow> s
      | Some tr \<Rightarrow>
          if within tr
          then s \<lparr> tracer := Some (pruned_nodes tr node_id rest dep (current_player (game s)) al be) \<rparr>
          else s)"

text \<open>The write of a node's value after its loop.\<close>

definition trace_value ::
  "(SearchTracer \<Rightarrow> bool) \<Rightarrow> nat option \<Rightarrow> int \<Rightarrow> int option \<Rightarrow> int option \<Rightarrow> search_state \<Rightarrow> search_state" where
  "trace_value within node_id v al be s =
     (case tracer s of
        None \<Rightarrow> s
      | Some tr \<Rightarrow>
          (case node_id of
             None \<Rightarrow> s
           | Some i \<Rightarrow> if within tr then s \<lparr> tracer := Some (set_value tr i v al be) \<rparr> else s))"

subsection \<open>Minimax\<close>

text \<open>
  \<open>max_value\<close> and \<open>min_value\<close> of \<open>minimax_decision\<close>, each with its \<open>for\<close> loop as a
  function of the actions still to try and the running value. \<open>ai\<close> and \<open>dl\<close> are the
  \<open>ai_player\<close> and \<open>depth_limit\<close> of the enclosing call.
\<close>

function mm_max_value :: "int \<Rightarrow> int \<Rightarrow> int \<Rightarrow> nat option \<Rightarrow> search_state \<Rightarrow> error + (int \<times> search_state)"
  and mm_max_loop :: "int \<Rightarrow> int \<Rightarrow> int \<Rightarrow> nat option \<Rightarrow> int list \<Rightarrow> int \<Rightarrow> search_state \<Rightarrow> error + (int \<times> search_state)"
  and mm_min_value :: "int \<Rightarrow> int \<Rightarrow> int \<Rightarrow> nat option \<Rightarrow> search_state \<Rightarrow> error + (int \<times> search_state)"
  and mm_min_loop :: "int \<Rightarrow> int \<Rightarrow> int \<Rightarrow> nat option \<Rightarrow> int list \<Rightarrow> int \<Rightarrow> search_state \<Rightarrow> error + (int \<times> search_state)"
where
  "mm_max_value ai dl d node_id s =
     (let s1 = enter_node d s in
      if terminal (game s1) then Inr (terminal_value (game s1) ai, s1)
      else if d \<ge> dl then Inr (evaluate (game s1) ai, s1)
      else
        (case mm_max_loop ai dl d node_id (actions (game s1)) (- INF_VAL) s1 of
           Inl e \<Rightarrow> Inl e
         | Inr (v, s2) \<Rightarrow>
             Inr (v, trace_value (\<lambda>tr. d \<le> trace_depth tr) node_id v None None s2)))"
| "mm_max_loop ai dl d node_id [] v s = Inr (v, s)"
| "mm_max_loop ai dl d node_id (a # rest) v s =
     (case drop_disc (game s) a None of
        (Inl e, g1) \<Rightarrow> Inl e
      | (Inr mv, g1) \<Rightarrow>
          (case trace_child (\<lambda>tr. d < trace_depth tr) ai node_id a (d + 1) None None
                  (s \<lparr> game := g1 \<rparr>) of
             (child_id, s1) \<Rightarrow>
               (case mm_min_value ai dl (d + 1) child_id s1 of
                  Inl e \<Rightarrow> Inl e
                | Inr (val, s2) \<Rightarrow>
                    (case undo_disc (game s2) mv of
                       (Inl e, g3) \<Rightarrow> Inl e
                     | (Inr u, g3) \<Rightarrow>
                         mm_max_loop ai dl d node_id rest (if val > v then val else v)
                           (s2 \<lparr> game := g3 \<rparr>)))))"
| "mm_min_value ai dl d node_id s =
     (let s1 = enter_node d s in
      if terminal (game s1) then Inr (terminal_value (game s1) ai, s1)
      else if d \<ge> dl then Inr (evaluate (game s1) ai, s1)
      else
        (case mm_min_loop ai dl d node_id (actions (game s1)) INF_VAL s1 of
           Inl e \<Rightarrow> Inl e
         | Inr (v, s2) \<Rightarrow>
             Inr (v, trace_value (\<lambda>tr. d \<le> trace_depth tr) node_id v None None s2)))"
| "mm_min_loop ai dl d node_id [] v s = Inr (v, s)"
| "mm_min_loop ai dl d node_id (a # rest) v s =
     (case drop_disc (game s) a None of
        (Inl e, g1) \<Rightarrow> Inl e
      | (Inr mv, g1) \<Rightarrow>
          (case trace_child (\<lambda>tr. d < trace_depth tr) ai node_id a (d + 1) None None
                  (s \<lparr> game := g1 \<rparr>) of
             (child_id, s1) \<Rightarrow>
               (case mm_max_value ai dl (d + 1) child_id s1 of
                  Inl e \<Rightarrow> Inl e
                | Inr (val, s2) \<Rightarrow>
                    (case undo_disc (game s2) mv of
                       (Inl e, g3) \<Rightarrow> Inl e
                     | (Inr u, g3) \<Rightarrow>
                         mm_min_loop ai dl d node_id rest (if val < v then val else v)
                           (s2 \<lparr> game := g3 \<rparr>)))))"
  by pat_completeness auto
termination
  by (relation "inv_image (less_than <*lex*> less_than)
        (\<lambda>x. case x of
           Inl (Inl (ai, dl, d, node_id, s)) \<Rightarrow> (2 * nat (dl - d) + 1, 0)
         | Inl (Inr (ai, dl, d, node_id, acts, v, s)) \<Rightarrow> (2 * nat (dl - d - 1) + 2, length acts)
         | Inr (Inl (ai, dl, d, node_id, s)) \<Rightarrow> (2 * nat (dl - d) + 1, 0)
         | Inr (Inr (ai, dl, d, node_id, acts, v, s)) \<Rightarrow> (2 * nat (dl - d - 1) + 2, length acts))")
    auto


subsection \<open>Alpha-beta\<close>

text \<open>
  \<open>max_value\<close> and \<open>min_value\<close> of \<open>alphabeta_decision\<close>. A loop returns the running
  value, the bound it has moved (\<open>alpha\<close> in \<open>max_value\<close>, \<open>beta\<close> in \<open>min_value\<close>) and the
  state; \<open>rest\<close> is \<open>acts[i+1:]\<close>.
\<close>

function ab_max_value :: "int \<Rightarrow> int \<Rightarrow> int \<Rightarrow> int \<Rightarrow> int \<Rightarrow> nat option \<Rightarrow> search_state \<Rightarrow> error + (int \<times> search_state)"
  and ab_max_loop :: "int \<Rightarrow> int \<Rightarrow> int \<Rightarrow> nat option \<Rightarrow> int list \<Rightarrow> int \<Rightarrow> int \<Rightarrow> int \<Rightarrow> search_state \<Rightarrow> error + (int \<times> int \<times> search_state)"
  and ab_min_value :: "int \<Rightarrow> int \<Rightarrow> int \<Rightarrow> int \<Rightarrow> int \<Rightarrow> nat option \<Rightarrow> search_state \<Rightarrow> error + (int \<times> search_state)"
  and ab_min_loop :: "int \<Rightarrow> int \<Rightarrow> int \<Rightarrow> nat option \<Rightarrow> int list \<Rightarrow> int \<Rightarrow> int \<Rightarrow> int \<Rightarrow> search_state \<Rightarrow> error + (int \<times> int \<times> search_state)"
where
  "ab_max_value ai dl d alpha beta node_id s =
     (let s1 = enter_node d s in
      if terminal (game s1) then Inr (terminal_value (game s1) ai, s1)
      else if d \<ge> dl then Inr (evaluate (game s1) ai, s1)
      else
        (case ab_max_loop ai dl d node_id (actions (game s1)) (- INF_VAL) alpha beta s1 of
           Inl e \<Rightarrow> Inl e
         | Inr (v, alpha', s2) \<Rightarrow>
             Inr (v, trace_value (\<lambda>tr. d \<le> trace_depth tr) node_id v (Some alpha') (Some beta) s2)))"
| "ab_max_loop ai dl d node_id [] v alpha beta s = Inr (v, alpha, s)"
| "ab_max_loop ai dl d node_id (a # rest) v alpha beta s =
     (case drop_disc (game s) a None of
        (Inl e, g1) \<Rightarrow> Inl e
      | (Inr mv, g1) \<Rightarrow>
          (case trace_child (\<lambda>tr. d < trace_depth tr) ai node_id a (d + 1) (Some alpha) (Some beta)
                  (s \<lparr> game := g1 \<rparr>) of
             (child_id, s1) \<Rightarrow>
               (case ab_min_value ai dl (d + 1) alpha beta child_id s1 of
                  Inl e \<Rightarrow> Inl e
                | Inr (val, s2) \<Rightarrow>
                    (case undo_disc (game s2) mv of
                       (Inl e, g3) \<Rightarrow> Inl e
                     | (Inr u, g3) \<Rightarrow>
                         (let v' = (if val > v then val else v);
                              alpha' = (if v' > alpha then v' else alpha);
                              s3 = s2 \<lparr> game := g3 \<rparr> in
                          if alpha' \<ge> beta
                          then Inr (v', alpha',
                                 trace_pruned (\<lambda>tr. d < trace_depth tr) node_id rest (d + 1) alpha' beta s3)
                          else ab_max_loop ai dl d node_id rest v' alpha' beta s3)))))"
| "ab_min_value ai dl d alpha beta node_id s =
     (let s1 = enter_node d s in
      if terminal (game s1) then Inr (terminal_value (game s1) ai, s1)
      else if d \<ge> dl then Inr (evaluate (game s1) ai, s1)
      else
        (case ab_min_loop ai dl d node_id (actions (game s1)) INF_VAL alpha beta s1 of
           Inl e \<Rightarrow> Inl e
         | Inr (v, beta', s2) \<Rightarrow>
             Inr (v, trace_value (\<lambda>tr. d \<le> trace_depth tr) node_id v (Some alpha) (Some beta') s2)))"
| "ab_min_loop ai dl d node_id [] v alpha beta s = Inr (v, beta, s)"
| "ab_min_loop ai dl d node_id (a # rest) v alpha beta s =
     (case drop_disc (game s) a None of
        (Inl e, g1) \<Rightarrow> Inl e
      | (Inr mv, g1) \<Rightarrow>
          (case trace_child (\<lambda>tr. d < trace_depth tr) ai node_id a (d + 1) (Some alpha) (Some beta)
                  (s \<lparr> game := g1 \<rparr>) of
             (child_id, s1) \<Rightarrow>
               (case ab_max_value ai dl (d + 1) alpha beta child_id s1 of
                  Inl e \<Rightarrow> Inl e
                | Inr (val, s2) \<Rightarrow>
                    (case undo_disc (game s2) mv of
                       (Inl e, g3) \<Rightarrow> Inl e
                     | (Inr u, g3) \<Rightarrow>
                         (let v' = (if val < v then val else v);
                              beta' = (if v' < beta then v' else beta);
                              s3 = s2 \<lparr> game := g3 \<rparr> in
                          if alpha \<ge> beta'
                          then Inr (v', beta',
                                 trace_pruned (\<lambda>tr. d < trace_depth tr) node_id rest (d + 1) alpha beta' s3)
                          else ab_min_loop ai dl d node_id rest v' alpha beta' s3)))))"
  by pat_completeness auto
termination
  by (relation "inv_image (less_than <*lex*> less_than)
        (\<lambda>x. case x of
           Inl (Inl (ai, dl, d, alpha, beta, node_id, s)) \<Rightarrow> (2 * nat (dl - d) + 1, 0)
         | Inl (Inr (ai, dl, d, node_id, acts, v, alpha, beta, s)) \<Rightarrow>
             (2 * nat (dl - d - 1) + 2, length acts)
         | Inr (Inl (ai, dl, d, alpha, beta, node_id, s)) \<Rightarrow> (2 * nat (dl - d) + 1, 0)
         | Inr (Inr (ai, dl, d, node_id, acts, v, alpha, beta, s)) \<Rightarrow>
             (2 * nat (dl - d - 1) + 2, length acts))")
    auto

subsection \<open>The two decision functions\<close>

text \<open>The root node, recorded when there is a tracer.\<close>

definition trace_root :: "int \<Rightarrow> int option \<Rightarrow> int option \<Rightarrow> search_state \<Rightarrow> nat option \<times> search_state" where
  "trace_root ai al be s =
     (case tracer s of
        None \<Rightarrow> (None, s)
      | Some tr \<Rightarrow>
          (let (rid, tr') = new_node tr None None 0 (current_player (game s))
                              (node_kind (game s) ai) al be False
           in (Some rid, s \<lparr> tracer := Some tr' \<rparr>)))"

text \<open>
  The root loops of \<open>minimax_decision\<close>, for \<open>game.current_player == ai_player\<close> and for
  the other case, with \<open>best_val\<close> and \<open>best_move\<close> as running arguments.
\<close>

fun mm_root_max_loop ::
  "int \<Rightarrow> int \<Rightarrow> nat option \<Rightarrow> int list \<Rightarrow> int \<Rightarrow> int option \<Rightarrow> search_state
     \<Rightarrow> error + (int \<times> int option \<times> search_state)" where
  "mm_root_max_loop ai dl root_id [] best_val best_move s = Inr (best_val, best_move, s)"
| "mm_root_max_loop ai dl root_id (a # rest) best_val best_move s =
     (case drop_disc (game s) a None of
        (Inl e, g1) \<Rightarrow> Inl e
      | (Inr mv, g1) \<Rightarrow>
          (case trace_child (\<lambda>tr. trace_depth tr \<ge> 1) ai root_id a 1 None None
                  (s \<lparr> game := g1 \<rparr>) of
             (child_id, s1) \<Rightarrow>
               (case mm_min_value ai dl 1 child_id s1 of
                  Inl e \<Rightarrow> Inl e
                | Inr (val, s2) \<Rightarrow>
                    (case undo_disc (game s2) mv of
                       (Inl e, g3) \<Rightarrow> Inl e
                     | (Inr u, g3) \<Rightarrow>
                         if val > best_val
                         then mm_root_max_loop ai dl root_id rest val (Some a) (s2 \<lparr> game := g3 \<rparr>)
                         else mm_root_max_loop ai dl root_id rest best_val best_move
                                (s2 \<lparr> game := g3 \<rparr>)))))"

fun mm_root_min_loop ::
  "int \<Rightarrow> int \<Rightarrow> nat option \<Rightarrow> int list \<Rightarrow> int \<Rightarrow> int option \<Rightarrow> search_state
     \<Rightarrow> error + (int \<times> int option \<times> search_state)" where
  "mm_root_min_loop ai dl root_id [] best_val best_move s = Inr (best_val, best_move, s)"
| "mm_root_min_loop ai dl root_id (a # rest) best_val best_move s =
     (case drop_disc (game s) a None of
        (Inl e, g1) \<Rightarrow> Inl e
      | (Inr mv, g1) \<Rightarrow>
          (case trace_child (\<lambda>tr. trace_depth tr \<ge> 1) ai root_id a 1 None None
                  (s \<lparr> game := g1 \<rparr>) of
             (child_id, s1) \<Rightarrow>
               (case mm_max_value ai dl 1 child_id s1 of
                  Inl e \<Rightarrow> Inl e
                | Inr (val, s2) \<Rightarrow>
                    (case undo_disc (game s2) mv of
                       (Inl e, g3) \<Rightarrow> Inl e
                     | (Inr u, g3) \<Rightarrow>
                         if val < best_val
                         then mm_root_min_loop ai dl root_id rest val (Some a) (s2 \<lparr> game := g3 \<rparr>)
                         else mm_root_min_loop ai dl root_id rest best_val best_move
                                (s2 \<lparr> game := g3 \<rparr>)))))"

text \<open>
  The body of \<open>minimax_decision\<close> up to its \<open>return\<close>: \<open>best_move\<close>, \<open>best_val\<close> (the root
  value, which the source also writes to the root node of the tracer) and the state.
\<close>

definition minimax_search ::
  "ConnectFour \<Rightarrow> int \<Rightarrow> int \<Rightarrow> SearchTracer option \<Rightarrow> error + (int option \<times> int \<times> search_state)" where
  "minimax_search g ai dl tracer_opt =
     (case trace_root ai None None
             \<lparr> game = g, metrics = \<lparr> nodes_expanded = 0, max_depth_reached = 0 \<rparr>,
               tracer = tracer_opt \<rparr> of
        (root_id, s1) \<Rightarrow>
          if current_player (game s1) = ai
          then (case mm_root_max_loop ai dl root_id (actions (game s1)) (- INF_VAL) None s1 of
                  Inl e \<Rightarrow> Inl e
                | Inr (best_val, best_move, s2) \<Rightarrow>
                    Inr (best_move, best_val,
                         trace_value (\<lambda>tr. True) root_id best_val None None s2))
          else (case mm_root_min_loop ai dl root_id (actions (game s1)) INF_VAL None s1 of
                  Inl e \<Rightarrow> Inl e
                | Inr (best_val, best_move, s2) \<Rightarrow>
                    Inr (best_move, best_val,
                         trace_value (\<lambda>tr. True) root_id best_val None None s2)))"

text \<open>
  \<open>return int(best_move), metrics, tracer\<close>: \<open>int(None)\<close> raises \<open>TypeError\<close>. The game
  is the caller's object, mutated in place, so the model returns it beside the tuple.
\<close>

definition finish_decision ::
  "error + (int option \<times> int \<times> search_state)
     \<Rightarrow> error + ((int \<times> SearchMetrics \<times> SearchTracer option) \<times> ConnectFour)" where
  "finish_decision res =
     (case res of
        Inl e \<Rightarrow> Inl e
      | Inr (best_move, best_val, s) \<Rightarrow>
          (case best_move of
             None \<Rightarrow> Inl TypeError
           | Some m \<Rightarrow> Inr ((m, metrics s, tracer s), game s)))"

definition minimax_decision ::
  "ConnectFour \<Rightarrow> int \<Rightarrow> int \<Rightarrow> SearchTracer option
     \<Rightarrow> error + ((int \<times> SearchMetrics \<times> SearchTracer option) \<times> ConnectFour)" where
  "minimax_decision g ai dl tracer_opt = finish_decision (minimax_search g ai dl tracer_opt)"

text \<open>The root loops of \<open>alphabeta_decision\<close>; each returns the bound it has moved as well.\<close>

fun ab_root_max_loop ::
  "int \<Rightarrow> int \<Rightarrow> nat option \<Rightarrow> int list \<Rightarrow> int \<Rightarrow> int option \<Rightarrow> int \<Rightarrow> int \<Rightarrow> search_state
     \<Rightarrow> error + (int \<times> int option \<times> int \<times> search_state)" where
  "ab_root_max_loop ai dl root_id [] best_val best_move alpha beta s =
     Inr (best_val, best_move, alpha, s)"
| "ab_root_max_loop ai dl root_id (a # rest) best_val best_move alpha beta s =
     (case drop_disc (game s) a None of
        (Inl e, g1) \<Rightarrow> Inl e
      | (Inr mv, g1) \<Rightarrow>
          (case trace_child (\<lambda>tr. trace_depth tr \<ge> 1) ai root_id a 1 (Some alpha) (Some beta)
                  (s \<lparr> game := g1 \<rparr>) of
             (child_id, s1) \<Rightarrow>
               (case ab_min_value ai dl 1 alpha beta child_id s1 of
                  Inl e \<Rightarrow> Inl e
                | Inr (val, s2) \<Rightarrow>
                    (case undo_disc (game s2) mv of
                       (Inl e, g3) \<Rightarrow> Inl e
                     | (Inr u, g3) \<Rightarrow>
                         (let best_val' = (if val > best_val then val else best_val);
                              best_move' = (if val > best_val then Some a else best_move);
                              alpha' = (if best_val' > alpha then best_val' else alpha);
                              s3 = s2 \<lparr> game := g3 \<rparr> in
                          if alpha' \<ge> beta
                          then Inr (best_val', best_move', alpha',
                                 trace_pruned (\<lambda>tr. trace_depth tr \<ge> 1) root_id rest 1 alpha' beta s3)
                          else ab_root_max_loop ai dl root_id rest best_val' best_move' alpha' beta s3)))))"

fun ab_root_min_loop ::
  "int \<Rightarrow> int \<Rightarrow> nat option \<Rightarrow> int list \<Rightarrow> int \<Rightarrow> int option \<Rightarrow> int \<Rightarrow> int \<Rightarrow> search_state
     \<Rightarrow> error + (int \<times> int option \<times> int \<times> search_state)" where
  "ab_root_min_loop ai dl root_id [] best_val best_move alpha beta s =
     Inr (best_val, best_move, beta, s)"
| "ab_root_min_loop ai dl root_id (a # rest) best_val best_move alpha beta s =
     (case drop_disc (game s) a None of
        (Inl e, g1) \<Rightarrow> Inl e
      | (Inr mv, g1) \<Rightarrow>
          (case trace_child (\<lambda>tr. trace_depth tr \<ge> 1) ai root_id a 1 (Some alpha) (Some beta)
                  (s \<lparr> game := g1 \<rparr>) of
             (child_id, s1) \<Rightarrow>
               (case ab_max_value ai dl 1 alpha beta child_id s1 of
                  Inl e \<Rightarrow> Inl e
                | Inr (val, s2) \<Rightarrow>
                    (case undo_disc (game s2) mv of
                       (Inl e, g3) \<Rightarrow> Inl e
                     | (Inr u, g3) \<Rightarrow>
                         (let best_val' = (if val < best_val then val else best_val);
                              best_move' = (if val < best_val then Some a else best_move);
                              beta' = (if best_val' < beta then best_val' else beta);
                              s3 = s2 \<lparr> game := g3 \<rparr> in
                          if alpha \<ge> beta'
                          then Inr (best_val', best_move', beta',
                                 trace_pruned (\<lambda>tr. trace_depth tr \<ge> 1) root_id rest 1 alpha beta' s3)
                          else ab_root_min_loop ai dl root_id rest best_val' best_move' alpha beta' s3)))))"

definition alphabeta_search ::
  "ConnectFour \<Rightarrow> int \<Rightarrow> int \<Rightarrow> SearchTracer option \<Rightarrow> error + (int option \<times> int \<times> search_state)" where
  "alphabeta_search g ai dl tracer_opt =
     (case trace_root ai (Some (- INF_VAL)) (Some INF_VAL)
             \<lparr> game = g, metrics = \<lparr> nodes_expanded = 0, max_depth_reached = 0 \<rparr>,
               tracer = tracer_opt \<rparr> of
        (root_id, s1) \<Rightarrow>
          if current_player (game s1) = ai
          then (case ab_root_max_loop ai dl root_id (actions (game s1)) (- INF_VAL) None
                       (- INF_VAL) INF_VAL s1 of
                  Inl e \<Rightarrow> Inl e
                | Inr (best_val, best_move, alpha', s2) \<Rightarrow>
                    Inr (best_move, best_val,
                         trace_value (\<lambda>tr. True) root_id best_val (Some alpha') (Some INF_VAL) s2))
          else (case ab_root_min_loop ai dl root_id (actions (game s1)) INF_VAL None
                       (- INF_VAL) INF_VAL s1 of
                  Inl e \<Rightarrow> Inl e
                | Inr (best_val, best_move, beta', s2) \<Rightarrow>
                    Inr (best_move, best_val,
                         trace_value (\<lambda>tr. True) root_id best_val (Some (- INF_VAL)) (Some beta') s2)))"

definition alphabeta_decision ::
  "ConnectFour \<Rightarrow> int \<Rightarrow> int \<Rightarrow> SearchTracer option
     \<Rightarrow> error + ((int \<times> SearchMetrics \<times> SearchTracer option) \<times> ConnectFour)" where
  "alphabeta_decision g ai dl tracer_opt = finish_decision (alphabeta_search g ai dl tracer_opt)"

section \<open>The searches as functions of the position\<close>

text \<open>
  The definitions of this section are not in the source. They say what the two searches
  compute when the tracer and the in-place moves are left out: they are what the
  theorems about the source functions are proved through, and what the first-best
  property of the chosen column is stated with.
\<close>

text \<open>The position after the player to move has played column \<open>a\<close>.\<close>

definition play :: "ConnectFour \<Rightarrow> int \<Rightarrow> ConnectFour" where
  "play g a = snd (drop_disc g a None)"


text \<open>
  Minimax on the tree of positions, with the recursion, the sentinels and the strict
  comparisons of \<open>max_value\<close> and \<open>min_value\<close>: the value of a position and the number of
  nodes expanded under it. A loop runs over the child positions.
\<close>

function mmt_max :: "int \<Rightarrow> int \<Rightarrow> int \<Rightarrow> ConnectFour \<Rightarrow> int \<times> nat"
  and mmt_max_loop :: "int \<Rightarrow> int \<Rightarrow> int \<Rightarrow> ConnectFour list \<Rightarrow> int \<Rightarrow> int \<times> nat"
  and mmt_min :: "int \<Rightarrow> int \<Rightarrow> int \<Rightarrow> ConnectFour \<Rightarrow> int \<times> nat"
  and mmt_min_loop :: "int \<Rightarrow> int \<Rightarrow> int \<Rightarrow> ConnectFour list \<Rightarrow> int \<Rightarrow> int \<times> nat"
where
  "mmt_max ai dl d g =
     (if terminal g then (terminal_value g ai, 1)
      else if d \<ge> dl then (evaluate g ai, 1)
      else (case mmt_max_loop ai dl d (map (play g) (actions g)) (- INF_VAL) of
              (v, n) \<Rightarrow> (v, n + 1)))"
| "mmt_max_loop ai dl d [] v = (v, 0)"
| "mmt_max_loop ai dl d (c # cs) v =
     (case mmt_min ai dl (d + 1) c of
        (val, n1) \<Rightarrow>
          (case mmt_max_loop ai dl d cs (if val > v then val else v) of
             (v', n2) \<Rightarrow> (v', n1 + n2)))"
| "mmt_min ai dl d g =
     (if terminal g then (terminal_value g ai, 1)
      else if d \<ge> dl then (evaluate g ai, 1)
      else (case mmt_min_loop ai dl d (map (play g) (actions g)) INF_VAL of
              (v, n) \<Rightarrow> (v, n + 1)))"
| "mmt_min_loop ai dl d [] v = (v, 0)"
| "mmt_min_loop ai dl d (c # cs) v =
     (case mmt_max ai dl (d + 1) c of
        (val, n1) \<Rightarrow>
          (case mmt_min_loop ai dl d cs (if val < v then val else v) of
             (v', n2) \<Rightarrow> (v', n1 + n2)))"
  by pat_completeness auto
termination
  by (relation "inv_image (less_than <*lex*> less_than)
        (\<lambda>x. case x of
           Inl (Inl (ai, dl, d, g)) \<Rightarrow> (2 * nat (dl - d) + 1, 0)
         | Inl (Inr (ai, dl, d, cs, v)) \<Rightarrow> (2 * nat (dl - d - 1) + 2, length cs)
         | Inr (Inl (ai, dl, d, g)) \<Rightarrow> (2 * nat (dl - d) + 1, 0)
         | Inr (Inr (ai, dl, d, cs, v)) \<Rightarrow> (2 * nat (dl - d - 1) + 2, length cs))")
    auto


text \<open>
  Alpha-beta on the same tree: the value, the number of nodes expanded, and the number
  of siblings skipped by cutoffs.
\<close>

function abt_max :: "int \<Rightarrow> int \<Rightarrow> int \<Rightarrow> int \<Rightarrow> int \<Rightarrow> ConnectFour \<Rightarrow> int \<times> nat \<times> nat"
  and abt_max_loop :: "int \<Rightarrow> int \<Rightarrow> int \<Rightarrow> ConnectFour list \<Rightarrow> int \<Rightarrow> int \<Rightarrow> int \<Rightarrow> int \<times> nat \<times> nat"
  and abt_min :: "int \<Rightarrow> int \<Rightarrow> int \<Rightarrow> int \<Rightarrow> int \<Rightarrow> ConnectFour \<Rightarrow> int \<times> nat \<times> nat"
  and abt_min_loop :: "int \<Rightarrow> int \<Rightarrow> int \<Rightarrow> ConnectFour list \<Rightarrow> int \<Rightarrow> int \<Rightarrow> int \<Rightarrow> int \<times> nat \<times> nat"
where
  "abt_max ai dl d alpha beta g =
     (if terminal g then (terminal_value g ai, 1, 0)
      else if d \<ge> dl then (evaluate g ai, 1, 0)
      else (case abt_max_loop ai dl d (map (play g) (actions g)) (- INF_VAL) alpha beta of
              (v, n, k) \<Rightarrow> (v, n + 1, k)))"
| "abt_max_loop ai dl d [] v alpha beta = (v, 0, 0)"
| "abt_max_loop ai dl d (c # cs) v alpha beta =
     (case abt_min ai dl (d + 1) alpha beta c of
        (val, n1, k1) \<Rightarrow>
          (let v' = (if val > v then val else v);
               alpha' = (if v' > alpha then v' else alpha) in
           if alpha' \<ge> beta then (v', n1, k1 + length cs)
           else (case abt_max_loop ai dl d cs v' alpha' beta of
                   (v'', n2, k2) \<Rightarrow> (v'', n1 + n2, k1 + k2))))"
| "abt_min ai dl d alpha beta g =
     (if terminal g then (terminal_value g ai, 1, 0)
      else if d \<ge> dl then (evaluate g ai, 1, 0)
      else (case abt_min_loop ai dl d (map (play g) (actions g)) INF_VAL alpha beta of
              (v, n, k) \<Rightarrow> (v, n + 1, k)))"
| "abt_min_loop ai dl d [] v alpha beta = (v, 0, 0)"
| "abt_min_loop ai dl d (c # cs) v alpha beta =
     (case abt_max ai dl (d + 1) alpha beta c of
        (val, n1, k1) \<Rightarrow>
          (let v' = (if val < v then val else v);
               beta' = (if v' < beta then v' else beta) in
           if alpha \<ge> beta' then (v', n1, k1 + length cs)
           else (case abt_min_loop ai dl d cs v' alpha beta' of
                   (v'', n2, k2) \<Rightarrow> (v'', n1 + n2, k1 + k2))))"
  by pat_completeness auto
termination
  by (relation "inv_image (less_than <*lex*> less_than)
        (\<lambda>x. case x of
           Inl (Inl (ai, dl, d, alpha, beta, g)) \<Rightarrow> (2 * nat (dl - d) + 1, 0)
         | Inl (Inr (ai, dl, d, cs, v, alpha, beta)) \<Rightarrow> (2 * nat (dl - d - 1) + 2, length cs)
         | Inr (Inl (ai, dl, d, alpha, beta, g)) \<Rightarrow> (2 * nat (dl - d) + 1, 0)
         | Inr (Inr (ai, dl, d, cs, v, alpha, beta)) \<Rightarrow> (2 * nat (dl - d - 1) + 2, length cs))")
    auto


text \<open>The root loops: best value, best move, nodes expanded (and siblings skipped).\<close>

fun mmt_root_max :: "int \<Rightarrow> int \<Rightarrow> ConnectFour \<Rightarrow> int list \<Rightarrow> int \<Rightarrow> int option \<Rightarrow> int \<times> int option \<times> nat" where
  "mmt_root_max ai dl g [] bv bm = (bv, bm, 0)"
| "mmt_root_max ai dl g (a # rest) bv bm =
     (case mmt_min ai dl 1 (play g a) of
        (val, n1) \<Rightarrow>
          (case (if val > bv then mmt_root_max ai dl g rest val (Some a)
                 else mmt_root_max ai dl g rest bv bm) of
             (bv', bm', n2) \<Rightarrow> (bv', bm', n1 + n2)))"

fun mmt_root_min :: "int \<Rightarrow> int \<Rightarrow> ConnectFour \<Rightarrow> int list \<Rightarrow> int \<Rightarrow> int option \<Rightarrow> int \<times> int option \<times> nat" where
  "mmt_root_min ai dl g [] bv bm = (bv, bm, 0)"
| "mmt_root_min ai dl g (a # rest) bv bm =
     (case mmt_max ai dl 1 (play g a) of
        (val, n1) \<Rightarrow>
          (case (if val < bv then mmt_root_min ai dl g rest val (Some a)
                 else mmt_root_min ai dl g rest bv bm) of
             (bv', bm', n2) \<Rightarrow> (bv', bm', n1 + n2)))"

fun abt_root_max ::
  "int \<Rightarrow> int \<Rightarrow> ConnectFour \<Rightarrow> int list \<Rightarrow> int \<Rightarrow> int option \<Rightarrow> int \<Rightarrow> int
     \<Rightarrow> int \<times> int option \<times> nat \<times> nat" where
  "abt_root_max ai dl g [] bv bm alpha beta = (bv, bm, 0, 0)"
| "abt_root_max ai dl g (a # rest) bv bm alpha beta =
     (case abt_min ai dl 1 alpha beta (play g a) of
        (val, n1, k1) \<Rightarrow>
          (let bv' = (if val > bv then val else bv);
               bm' = (if val > bv then Some a else bm);
               alpha' = (if bv' > alpha then bv' else alpha) in
           if alpha' \<ge> beta then (bv', bm', n1, k1 + length rest)
           else (case abt_root_max ai dl g rest bv' bm' alpha' beta of
                   (bv'', bm'', n2, k2) \<Rightarrow> (bv'', bm'', n1 + n2, k1 + k2))))"

fun abt_root_min ::
  "int \<Rightarrow> int \<Rightarrow> ConnectFour \<Rightarrow> int list \<Rightarrow> int \<Rightarrow> int option \<Rightarrow> int \<Rightarrow> int
     \<Rightarrow> int \<times> int option \<times> nat \<times> nat" where
  "abt_root_min ai dl g [] bv bm alpha beta = (bv, bm, 0, 0)"
| "abt_root_min ai dl g (a # rest) bv bm alpha beta =
     (case abt_max ai dl 1 alpha beta (play g a) of
        (val, n1, k1) \<Rightarrow>
          (let bv' = (if val < bv then val else bv);
               bm' = (if val < bv then Some a else bm);
               beta' = (if bv' < beta then bv' else beta) in
           if alpha \<ge> beta' then (bv', bm', n1, k1 + length rest)
           else (case abt_root_min ai dl g rest bv' bm' alpha beta' of
                   (bv'', bm'', n2, k2) \<Rightarrow> (bv'', bm'', n1 + n2, k1 + k2))))"

definition mmt_search :: "ConnectFour \<Rightarrow> int \<Rightarrow> int \<Rightarrow> int \<times> int option \<times> nat" where
  "mmt_search g ai dl =
     (if current_player g = ai then mmt_root_max ai dl g (actions g) (- INF_VAL) None
      else mmt_root_min ai dl g (actions g) INF_VAL None)"

definition abt_search :: "ConnectFour \<Rightarrow> int \<Rightarrow> int \<Rightarrow> int \<times> int option \<times> nat \<times> nat" where
  "abt_search g ai dl =
     (if current_player g = ai
      then abt_root_max ai dl g (actions g) (- INF_VAL) None (- INF_VAL) INF_VAL
      else abt_root_min ai dl g (actions g) INF_VAL None (- INF_VAL) INF_VAL)"



text \<open>
  A state after a search is the state before it, up to the last-move anchor, which
  \<open>undo_disc\<close> clears.
\<close>

definition restored :: "ConnectFour \<Rightarrow> ConnectFour \<Rightarrow> bool" where
  "restored g g' \<longleftrightarrow> g' = g \<or> g' = g \<lparr> last_move := None \<rparr>"


text \<open>The number of placeholders (\<open>pruned=True\<close>) in a trace; none without a tracer.\<close>

definition pruned_total :: "SearchTracer option \<Rightarrow> nat" where
  "pruned_total t = (case t of None \<Rightarrow> 0 | Some tr \<Rightarrow> length (filter tn_pruned (nodes tr)))"


text \<open>
  What a nested call leaves behind: the position, \<open>n\<close> more nodes expanded and at most
  \<open>k\<close> more placeholders.
\<close>

definition state_after :: "search_state \<Rightarrow> search_state \<Rightarrow> nat \<Rightarrow> nat \<Rightarrow> bool" where
  "state_after s s' n k \<longleftrightarrow>
     restored (game s) (game s') \<and>
     nodes_expanded (metrics s') = nodes_expanded (metrics s) + n \<and>
     pruned_total (tracer s') \<le> pruned_total (tracer s) + k"



text \<open>
  A board of at most \<open>10^12\<close> cells. On such a board every heuristic value lies strictly
  between \<open>-INF\<close> and \<open>INF\<close>, so the sentinels \<open>-10**18\<close> and \<open>10**18\<close> are never reached by
  a value.
\<close>

definition small_board :: "ConnectFour \<Rightarrow> bool" where
  "small_board g \<longleftrightarrow> rows g * cols g \<le> 10 ^ 12"


text \<open>The minimax value of the position after the root move \<open>a\<close>.\<close>

definition child_value :: "ConnectFour \<Rightarrow> int \<Rightarrow> int \<Rightarrow> int \<Rightarrow> int" where
  "child_value g ai dl a =
     (if current_player g = ai then fst (mmt_min ai dl 1 (play g a))
      else fst (mmt_max ai dl 1 (play g a)))"


text \<open>
  The best value is the maximum of the root moves' values when \<open>ai\<close> is to move (the
  minimum otherwise), and the best move is the first legal column, in ascending order,
  whose value is the best value.
\<close>

definition first_best :: "ConnectFour \<Rightarrow> int \<Rightarrow> int \<Rightarrow> int option \<Rightarrow> int \<Rightarrow> bool" where
  "first_best g ai dl bm bv \<longleftrightarrow>
     actions g \<noteq> [] \<and>
     bv = (if current_player g = ai
           then Max (set (map (child_value g ai dl) (actions g)))
           else Min (set (map (child_value g ai dl) (actions g)))) \<and>
     bm = List.find (\<lambda>a. child_value g ai dl a = bv) (actions g)"


text \<open>What a caller reads from the result of a decision function, and of its body.\<close>

definition chosen_column ::
  "error + ((int \<times> SearchMetrics \<times> SearchTracer option) \<times> ConnectFour) \<Rightarrow> int option" where
  "chosen_column res = (case res of Inl e \<Rightarrow> None | Inr ((m, r), g') \<Rightarrow> Some m)"


definition decision_game ::
  "error + ((int \<times> SearchMetrics \<times> SearchTracer option) \<times> ConnectFour) \<Rightarrow> ConnectFour option" where
  "decision_game res = (case res of Inl e \<Rightarrow> None | Inr (r, g') \<Rightarrow> Some g')"

definition search_summary ::
  "error + (int option \<times> int \<times> search_state) \<Rightarrow> (int option \<times> int \<times> nat \<times> nat) option" where
  "search_summary res =
     (case res of
        Inl e \<Rightarrow> None
      | Inr (bm, bv, s) \<Rightarrow> Some (bm, bv, nodes_expanded (metrics s), pruned_total (tracer s)))"


text \<open>
  The root node is the first node of a tracer that was empty at the call; the value
  recorded there is what a caller reads as the root value from the returned tracer.
\<close>

definition recorded_root :: "error + (int option \<times> int \<times> search_state) \<Rightarrow> int option" where
  "recorded_root res =
     (case res of
        Inl e \<Rightarrow> None
      | Inr (bm, bv, s) \<Rightarrow>
          (case tracer s of
             None \<Rightarrow> None
           | Some tr \<Rightarrow> (case nodes tr of [] \<Rightarrow> None | n # ns \<Rightarrow> tn_value n)))"

text \<open>
  Two relations on the tracer, used to follow the root node through a search:
  \<open>root_kept t t'\<close> says that \<open>t'\<close> continues \<open>t\<close> with the first node untouched, and
  \<open>ids_above t nid\<close> that the first node's id is below the next id to be given and below
  the id \<open>nid\<close> of the node being searched.
\<close>

definition root_kept :: "SearchTracer option \<Rightarrow> SearchTracer option \<Rightarrow> bool" where
  "root_kept t t' \<longleftrightarrow>
     (case t of
        None \<Rightarrow> t' = None
      | Some tr \<Rightarrow>
          (\<exists>tr'. t' = Some tr' \<and> next_id tr \<le> next_id tr' \<and>
             (nodes tr \<noteq> [] \<longrightarrow> nodes tr' \<noteq> [] \<and> hd (nodes tr') = hd (nodes tr))))"

definition ids_above :: "SearchTracer option \<Rightarrow> nat option \<Rightarrow> bool" where
  "ids_above t nid \<longleftrightarrow>
     (case t of
        None \<Rightarrow> True
      | Some tr \<Rightarrow>
          nodes tr \<noteq> [] \<and> tn_id (hd (nodes tr)) < next_id tr \<and>
          (case nid of None \<Rightarrow> True | Some i \<Rightarrow> tn_id (hd (nodes tr)) < i))"


text \<open>
  The relation between the value \<open>x\<close> that alpha-beta returns for the window \<open>(al, be)\<close>
  and the minimax value \<open>y\<close>: exact inside the window, a bound outside.
\<close>

definition ab_rel :: "int \<Rightarrow> int \<Rightarrow> int \<Rightarrow> int \<Rightarrow> bool" where
  "ab_rel al be x y \<longleftrightarrow> (x \<le> al \<longrightarrow> y \<le> x) \<and> (be \<le> x \<longrightarrow> x \<le> y) \<and> (al < x \<and> x < be \<longrightarrow> y = x)"


section \<open>States used as concrete inputs\<close>

text \<open>The state \<open>ConnectFour()\<close> builds: six rows, seven columns, win length four.\<close>

definition empty_game :: ConnectFour where
  "empty_game = \<lparr> rows = 6, cols = 7, connect = 4,
      board = replicate 6 (replicate 7 0), current_player = 1, last_move = None \<rparr>"

text \<open>The same after \<open>drop_disc(3)\<close>: one disc of player 1 at the bottom of column 3.\<close>

definition one_move_game :: ConnectFour where
  "one_move_game = \<lparr> rows = 6, cols = 7, connect = 4,
      board = replicate 5 (replicate 7 0) @ [[0, 0, 0, 1, 0, 0, 0]],
      current_player = - 1, last_move = Some \<lparr> row = 5, col = 3, player = 1 \<rparr> \<rparr>"

text \<open>
  The position of \<open>setup_midgame\<close> in compare.py: the columns 3, 3, 2, 4, 2, 4, 1, 5 played
  by the two players in turn, player 1 first.
\<close>

definition midgame :: ConnectFour where
  "midgame = \<lparr> rows = 6, cols = 7, connect = 4,
      board = replicate 4 (replicate 7 0) @
        [[0, 0, 1, - 1, - 1, 0, 0],
         [0, 1, 1, 1, - 1, - 1, 0]],
      current_player = 1, last_move = Some \<lparr> row = 5, col = 5, player = - 1 \<rparr> \<rparr>"

text \<open>A state with win length 5 and three discs of player 1 in the bottom row.\<close>

definition connect5_game :: ConnectFour where
  "connect5_game = \<lparr> rows = 6, cols = 7, connect = 5,
      board = replicate 5 (replicate 7 0) @ [[1, 1, 1, 0, 0, 0, 0]],
      current_player = - 1, last_move = None \<rparr>"

text \<open>The tracer \<open>SearchTracer(3)\<close>.\<close>

definition fresh_tracer :: SearchTracer where
  "fresh_tracer = \<lparr> trace_depth = 3, nodes = [], next_id = 0 \<rparr>"


text \<open>
  The position of \<open>midgame\<close> after player 1 has played column 0: four discs of player 1 in
  the bottom row.
\<close>

definition won_game :: ConnectFour where
  "won_game = \<lparr> rows = 6, cols = 7, connect = 4,
      board = replicate 4 (replicate 7 0) @
        [[0, 0, 1, - 1, - 1, 0, 0],
         [1, 1, 1, 1, - 1, - 1, 0]],
      current_player = - 1, last_move = Some \<lparr> row = 5, col = 0, player = 1 \<rparr> \<rparr>"

section \<open>Properties of the state model\<close>



lemma lowest_empty_found:
  "lowest_empty b c n = Some r \<Longrightarrow> r < n \<and> b ! r ! c = 0 \<and> (\<forall>r'. r < r' \<and> r' < n \<longrightarrow> b ! r' ! c \<noteq> 0)"
proof (induction n)
  case 0
  then show ?case by simp
next
  case (Suc n)
  show ?case
  proof (cases "b ! n ! c = 0")
    case True
    with Suc.prems show ?thesis by auto
  next
    case False
    with Suc.prems have "lowest_empty b c n = Some r" by simp
    from Suc.IH[OF this] False show ?thesis
      by (metis less_Suc_eq)
  qed
qed

lemma lowest_empty_exists:
  "0 < n \<Longrightarrow> b ! 0 ! c = 0 \<Longrightarrow> \<exists>r. lowest_empty b c n = Some r"
proof (induction n)
  case 0
  then show ?case by simp
next
  case (Suc n)
  then show ?case by (cases n) auto
qed

lemma wf_row_length: "wf_game g \<Longrightarrow> r < rows g \<Longrightarrow> length (board g ! r) = cols g"
  by (simp add: wf_game_def list_all_length)

lemma mem_actions: "c \<in> set (actions g) \<longleftrightarrow> 0 \<le> c \<and> c < int (cols g) \<and> board g ! 0 ! nat c = 0"
proof
  assume "c \<in> set (actions g)"
  then show "0 \<le> c \<and> c < int (cols g) \<and> board g ! 0 ! nat c = 0"
    by (auto simp: actions_def)
next
  assume a: "0 \<le> c \<and> c < int (cols g) \<and> board g ! 0 ! nat c = 0"
  then have "nat c \<in> set (filter (\<lambda>c. board g ! 0 ! c = 0) [0..<cols g])" by auto
  then have "int (nat c) \<in> set (actions g)" unfolding actions_def by (simp only: set_map image_eqI)
  with a show "c \<in> set (actions g)" by simp
qed

lemma drop_disc_legal:
  assumes "wf_game g" "0 \<le> c" "c < int (cols g)" "board g ! 0 ! nat c = 0"
  shows "\<exists>r. lowest_empty (board g) (nat c) (rows g) = Some r \<and>
           drop_disc g c popt =
             (Inr \<lparr> row = int r, col = c, player = (case popt of None \<Rightarrow> current_player g | Some q \<Rightarrow> q) \<rparr>,
              g \<lparr> board := (board g)[r := (board g ! r)[nat c := (case popt of None \<Rightarrow> current_player g | Some q \<Rightarrow> q)]],
                  last_move := Some \<lparr> row = int r, col = c, player = (case popt of None \<Rightarrow> current_player g | Some q \<Rightarrow> q) \<rparr>,
                  current_player := (if (case popt of None \<Rightarrow> current_player g | Some q \<Rightarrow> q) = current_player g then - current_player g
                                     else current_player g) \<rparr>)"
proof -
  from assms have "0 < rows g" by (simp add: wf_game_def)
  from lowest_empty_exists[OF this assms(4)] obtain r where
    "lowest_empty (board g) (nat c) (rows g) = Some r" by blast
  with assms show ?thesis by (simp add: drop_disc_def Let_def)
qed

text \<open>
  Claim C7. \<open>drop_disc\<close> fails exactly when the column is out of range or its top cell is
  occupied, and then with a \<open>ValueError\<close> and the state unchanged. When it succeeds the
  disc lies in the lowest empty row of the column, the move is the new last move, nothing
  else on the board has changed, and the turn passes to the other player exactly when
  the acting player was the one to move.
\<close>

theorem drop_disc_spec:
  assumes "wf_game g"
  shows "((\<exists>e. fst (drop_disc g c popt) = Inl e) \<longleftrightarrow>
            (\<not> (0 \<le> c \<and> c < int (cols g)) \<or> (0 \<le> c \<and> c < int (cols g) \<and> board g ! 0 ! nat c \<noteq> 0)))
       \<and> (\<forall>e. fst (drop_disc g c popt) = Inl e \<longrightarrow>
             (\<exists>msg. e = ValueError msg) \<and> snd (drop_disc g c popt) = g)
       \<and> (\<forall>mv. fst (drop_disc g c popt) = Inr mv \<longrightarrow>
             (let p = (case popt of None \<Rightarrow> current_player g | Some q \<Rightarrow> q);
                  r = nat (row mv); g' = snd (drop_disc g c popt) in
              col mv = c \<and> player mv = p \<and> 0 \<le> row mv \<and> r < rows g \<and>
              board g ! r ! nat c = 0 \<and>
              (\<forall>r'. r < r' \<and> r' < rows g \<longrightarrow> board g ! r' ! nat c \<noteq> 0) \<and>
              board g' = (board g)[r := (board g ! r)[nat c := p]] \<and>
              last_move g' = Some mv \<and>
              current_player g' = (if p = current_player g then - current_player g else current_player g) \<and>
              rows g' = rows g \<and> cols g' = cols g \<and> connect g' = connect g))"
proof (cases "0 \<le> c \<and> c < int (cols g) \<and> board g ! 0 ! nat c = 0")
  case True
  then have c: "0 \<le> c" "c < int (cols g)" "board g ! 0 ! nat c = 0" by auto
  from drop_disc_legal[OF assms c, of popt] obtain r where
    r: "lowest_empty (board g) (nat c) (rows g) = Some r" and
    d: "drop_disc g c popt =
             (Inr \<lparr> row = int r, col = c, player = (case popt of None \<Rightarrow> current_player g | Some q \<Rightarrow> q) \<rparr>,
              g \<lparr> board := (board g)[r := (board g ! r)[nat c := (case popt of None \<Rightarrow> current_player g | Some q \<Rightarrow> q)]],
                  last_move := Some \<lparr> row = int r, col = c, player = (case popt of None \<Rightarrow> current_player g | Some q \<Rightarrow> q) \<rparr>,
                  current_player := (if (case popt of None \<Rightarrow> current_player g | Some q \<Rightarrow> q) = current_player g then - current_player g
                                     else current_player g) \<rparr>)" by blast
  from lowest_empty_found[OF r] True show ?thesis
    by (simp add: d Let_def)
next
  case False
  then show ?thesis
    by (auto simp: drop_disc_def Let_def)
qed

text \<open>The constructor gives a well-shaped state, and \<open>drop_disc\<close> and \<open>undo_disc\<close> keep the shape.\<close>

lemma board_update_shape:
  assumes "list_all (\<lambda>r. length r = n) b"
  shows "list_all (\<lambda>r. length r = n) (b[r := (b ! r)[c := p]])"
proof -
  have "length ((b[r := (b ! r)[c := p]]) ! i) = n" if "i < length b" for i
    using assms that by (cases "i = r") (simp_all add: list_all_length)
  then show ?thesis by (simp add: list_all_length)
qed

lemma new_game_wf: "new_game nr nc k = Inr g \<Longrightarrow> wf_game g"
  by (auto simp: new_game_def wf_game_def list_all_iff split: if_splits)

lemma new_game_default: "new_game 6 7 4 = Inr empty_game"
  by (simp add: new_game_def empty_game_def)

lemma drop_disc_wf: "wf_game g \<Longrightarrow> wf_game (snd (drop_disc g c popt))"
  by (auto simp: drop_disc_def Let_def wf_game_def board_update_shape split: option.splits)

lemma undo_disc_wf: "wf_game g \<Longrightarrow> wf_game (snd (undo_disc g mv))"
  by (auto simp: undo_disc_def wf_game_def board_update_shape split: option.splits)

lemma wf_empty_game: "wf_game empty_game"
  by (simp add: wf_game_def empty_game_def list_all_iff)

theorem drop_disc_spec_witness:
  "wf_game empty_game
   \<and> \<not> (\<exists>e. fst (drop_disc empty_game 3 None) = Inl e)
   \<and> (\<exists>e. fst (drop_disc empty_game 7 None) = Inl e)
   \<and> (\<exists>e. fst (drop_disc empty_game (- 1) (Some 1)) = Inl e)"
  using drop_disc_spec [OF wf_empty_game, of 3 None]
    drop_disc_spec [OF wf_empty_game, of 7 None]
    drop_disc_spec [OF wf_empty_game, of "- 1" "Some 1"] wf_empty_game
  by (simp add: empty_game_def)


lemma py_index_nat: "n < m \<Longrightarrow> py_index m (int n) = Some n"
  by (simp add: py_index_def)

lemma py_index_int: "0 \<le> c \<Longrightarrow> c < int m \<Longrightarrow> py_index m c = Some (nat c)"
  by (simp add: py_index_def)

lemma cell_update_undo:
  assumes "r < length b" "b ! r ! c = (0::int)"
  shows "(b[r := (b ! r)[c := p]])[r := (b[r := (b ! r)[c := p]] ! r)[c := 0]] = b"
proof -
  have "(b ! r)[c := p, c := 0] = b ! r"
    using assms(2) by (metis list_update_id list_update_overwrite)
  with assms(1) show ?thesis by simp
qed

lemma drop_then_undo:
  assumes wf: "wf_game g" and c: "c \<in> set (actions g)"
  shows "\<exists>mv g1. drop_disc g c None = (Inr mv, g1) \<and> wf_game g1 \<and>
           rows g1 = rows g \<and> cols g1 = cols g \<and> connect g1 = connect g \<and>
           undo_disc g1 mv = (Inr (), g \<lparr> last_move := None \<rparr>) \<and>
           undo_disc (g1 \<lparr> last_move := None \<rparr>) mv = (Inr (), g \<lparr> last_move := None \<rparr>)"
proof -
  from c have c': "0 \<le> c" "c < int (cols g)" "board g ! 0 ! nat c = 0"
    by (simp_all add: mem_actions)
  from drop_disc_legal[OF wf c', of None] obtain r where
    r: "lowest_empty (board g) (nat c) (rows g) = Some r" and
    d: "drop_disc g c None =
          (Inr \<lparr> row = int r, col = c, player = current_player g \<rparr>,
           g \<lparr> board := (board g)[r := (board g ! r)[nat c := current_player g]],
               last_move := Some \<lparr> row = int r, col = c, player = current_player g \<rparr>,
               current_player := - current_player g \<rparr>)"
    by auto
  let ?mv = "\<lparr> row = int r, col = c, player = current_player g \<rparr>"
  let ?b1 = "(board g)[r := (board g ! r)[nat c := current_player g]]"
  let ?g1 = "g \<lparr> board := ?b1, last_move := Some ?mv, current_player := - current_player g \<rparr>"
  from lowest_empty_found[OF r] have rlt: "r < rows g" and cell: "board g ! r ! nat c = 0" by auto
  from wf have len: "length (board g) = rows g" by (simp add: wf_game_def)
  from wf rlt have rowlen: "length (board g ! r) = cols g" by (rule wf_row_length)
  have wf1: "wf_game ?g1"
    using wf rlt by (auto simp: wf_game_def list_all_length nth_list_update)
  have ix1: "py_index (length ?b1) (int r) = Some r"
    using rlt len by (simp add: py_index_nat)
  have ix2: "py_index (length (?b1 ! r)) c = Some (nat c)"
    using rlt len rowlen c' by (simp add: py_index_int)
  have c2: "nat c < cols g" using c' by auto
  have cellp: "?b1 ! r ! nat c = current_player g"
    using rlt len rowlen c2 by simp
  have bk: "list_update ?b1 r (list_update (?b1 ! r) (nat c) 0) = board g"
    using cell_update_undo[of r "board g" "nat c" "current_player g"] rlt len cell by simp
  have u1: "undo_disc ?g1 ?mv = (Inr (), g \<lparr> last_move := None \<rparr>)"
    unfolding undo_disc_def using ix1 ix2 cellp bk by simp
  have u2: "undo_disc (?g1 \<lparr> last_move := None \<rparr>) ?mv = (Inr (), g \<lparr> last_move := None \<rparr>)"
    unfolding undo_disc_def using ix1 ix2 cellp bk by simp
  from d wf1 u1 u2 show ?thesis by simp
qed

lemma is_full_last_move [simp]: "is_full (g \<lparr> last_move := lm \<rparr>) = is_full g"
  by (simp add: is_full_def)

lemma actions_last_move [simp]: "actions (g \<lparr> last_move := lm \<rparr>) = actions g"
  by (simp add: actions_def)

lemma winner_no_last_move [simp]: "winner (g \<lparr> last_move := None \<rparr>) = 0"
  by (simp add: winner_def)

lemma empty_game_not_terminal: "\<not> terminal empty_game"
  by code_simp

lemma empty_game_action_3: "3 \<in> set (actions empty_game)"
  by (simp add: mem_actions empty_game_def)

text \<open>
  Claim C2. In a well-shaped, non-terminal state, \<open>drop_disc\<close> of a legal column with the
  default player succeeds, \<open>undo_disc\<close> of the move it returns succeeds, and the board, the
  turn owner and the terminal status are then what they were before the drop.
\<close>

theorem apply_undo_restores:
  assumes "wf_game g" and "\<not> terminal g" and "c \<in> set (actions g)"
  shows "\<exists>mv g1 g2. drop_disc g c None = (Inr mv, g1) \<and> undo_disc g1 mv = (Inr (), g2) \<and>
           board g2 = board g \<and> current_player g2 = current_player g \<and>
           terminal g2 = terminal g"
proof -
  from drop_then_undo[OF assms(1) assms(3)] obtain mv g1 where
    d: "drop_disc g c None = (Inr mv, g1)" and
    u: "undo_disc g1 mv = (Inr (), g \<lparr> last_move := None \<rparr>)" by blast
  from assms(2) have "terminal (g \<lparr> last_move := None \<rparr>) = terminal g"
    by (simp add: terminal_def)
  with d u show ?thesis by simp
qed

theorem apply_undo_restores_witness:
  "\<exists>mv g1 g2. drop_disc empty_game 3 None = (Inr mv, g1) \<and> undo_disc g1 mv = (Inr (), g2) \<and>
     board g2 = board empty_game \<and> current_player g2 = current_player empty_game \<and>
     terminal g2 = terminal empty_game"
  using apply_undo_restores [OF wf_empty_game empty_game_not_terminal empty_game_action_3]
  by simp

text \<open>
  Claim C10. After an \<open>undo_disc\<close> that returns, the last-move anchor is \<open>None\<close> (it is not
  set back to the move before), so \<open>winner\<close> is 0 whatever the board holds and \<open>terminal\<close>
  is true exactly when the board is full.
\<close>

theorem undo_clears_anchor:
  assumes "undo_disc g mv = (Inr (), g')"
  shows "last_move g' = None \<and> winner g' = 0 \<and> terminal g' = is_full g'"
proof -
  from assms have "last_move g' = None"
    by (auto simp: undo_disc_def split: option.splits if_splits)
  then show ?thesis by (simp add: winner_def terminal_def)
qed



lemma undo_one_move_game:
  "undo_disc one_move_game \<lparr> row = 5, col = 3, player = 1 \<rparr> = (Inr (), empty_game)"
  by code_simp

theorem undo_clears_anchor_witness:
  "undo_disc one_move_game \<lparr> row = 5, col = 3, player = 1 \<rparr> = (Inr (), empty_game)
   \<and> last_move empty_game = None \<and> winner empty_game = 0
   \<and> terminal empty_game = is_full empty_game"
  using undo_clears_anchor [OF undo_one_move_game] undo_one_move_game
  by simp


section \<open>Properties of the evaluator\<close>

lemma count_three:
  "p \<noteq> (0::int) \<Longrightarrow> count_list w p + count_list w (- p) + count_list w 0 \<le> length w"
  by (induction w) auto

lemma score_window_table:
  assumes "p \<noteq> 0" "length w = 4"
  shows "score_window p w = window_score_spec p w"
  using count_three[OF assms(1), of w] assms(2)
  by (auto simp: score_window_def window_score_spec_def Let_def)

lemma center_delta_counts:
  assumes "p \<noteq> (0::int)"
  shows "(\<Sum>x\<leftarrow>xs. if f x = p then 1 else if f x = - p then - 1 else 0) =
         int (length (filter (\<lambda>x. f x = p) xs)) - int (length (filter (\<lambda>x. f x = - p) xs))"
  using assms by (induction xs) auto

lemma center_eq: "p \<noteq> 0 \<Longrightarrow> 6 * center_delta g p = center_spec g p"
  unfolding center_delta_def center_spec_def
  by (simp add: center_delta_counts[where f = "\<lambda>r. board g ! r ! (cols g div 2)"] right_diff_distrib)

lemma sum_list_concat_if:
  "(\<Sum>w\<leftarrow>concat (map (\<lambda>c. if P c then [W c] else []) cs). (f w :: int)) =
   (\<Sum>c\<leftarrow>cs. if P c then f (W c) else 0)"
  by (induction cs) auto

lemma sum_list_concat_map:
  "(\<Sum>w\<leftarrow>concat (map F xs). (f w :: int)) = (\<Sum>x\<leftarrow>xs. \<Sum>w\<leftarrow>F x. f w)"
  by (induction xs) auto

lemma sum_upt_guard:
  "(\<Sum>c\<leftarrow>[0..<n]. if c + k < n then (F c :: int) else 0) = (\<Sum>c\<leftarrow>[0..<n - k]. F c)"
proof -
  have "(\<Sum>c\<leftarrow>[0..<n]. if c + k < n then F c else 0) = (\<Sum>c\<in>{0..<n}. if c + k < n then F c else 0)"
    by (simp add: interv_sum_list_conv_sum_set_nat)
  also have "\<dots> = (\<Sum>c\<in>{c \<in> {0..<n}. c + k < n}. F c)"
    by (rule sum.inter_filter[symmetric]) simp
  also have "{c \<in> {0..<n}. c + k < n} = {0..<n - k}" by auto
  also have "(\<Sum>c\<in>{0..<n - k}. F c) = (\<Sum>c\<leftarrow>[0..<n - k]. F c)"
    by (simp add: interv_sum_list_conv_sum_set_nat)
  finally show ?thesis .
qed

lemma sum_upt_guard_low:
  "(\<Sum>r\<leftarrow>[0..<n]. if k \<le> r then (F r :: int) else 0) = (\<Sum>r\<leftarrow>[k..<n]. F r)"
proof -
  have "(\<Sum>r\<leftarrow>[0..<n]. if k \<le> r then F r else 0) = (\<Sum>r\<in>{0..<n}. if k \<le> r then F r else 0)"
    by (simp add: interv_sum_list_conv_sum_set_nat)
  also have "\<dots> = (\<Sum>r\<in>{r \<in> {0..<n}. k \<le> r}. F r)"
    by (rule sum.inter_filter[symmetric]) simp
  also have "{r \<in> {0..<n}. k \<le> r} = {k..<n}" by auto
  also have "(\<Sum>r\<in>{k..<n}. F r) = (\<Sum>r\<leftarrow>[k..<n]. F r)"
    by (simp add: interv_sum_list_conv_sum_set_nat)
  finally show ?thesis .
qed

lemma sum_list_swap_upt:
  "(\<Sum>r\<leftarrow>[a..<b]. \<Sum>c\<leftarrow>[a'..<b']. (F r c :: int)) = (\<Sum>c\<leftarrow>[a'..<b']. \<Sum>r\<leftarrow>[a..<b]. F r c)"
  by (simp add: interv_sum_list_conv_sum_set_nat) (rule sum.swap)


lemma sum_list_cong_upt:
  "(\<And>x. x \<in> set xs \<Longrightarrow> F x = (G x :: int)) \<Longrightarrow> (\<Sum>x\<leftarrow>xs. F x) = (\<Sum>x\<leftarrow>xs. G x)"
  by (induction xs) auto

lemma sum_list_if_single:
  "sum_list (map f (if b then [x] else [])) = (if b then (f x :: int) else 0)"
  by simp

lemma window_sum_general:
  assumes PQ: "\<And>r c. r < R \<Longrightarrow> c < C \<Longrightarrow> P r c \<longleftrightarrow> Q r c"
    and WV: "\<And>r c. r < R \<Longrightarrow> c < C \<Longrightarrow> Q r c \<Longrightarrow> W r c = V r c"
  shows "(\<Sum>w\<leftarrow>concat (map (\<lambda>r. concat (map (\<lambda>c. if P r c then [W r c] else []) [0..<C])) [0..<R]).
            (f w :: int)) =
         (\<Sum>r\<leftarrow>[0..<R]. \<Sum>c\<leftarrow>[0..<C]. if Q r c then f (V r c) else 0)"
proof -
  have "(\<Sum>w\<leftarrow>concat (map (\<lambda>r. concat (map (\<lambda>c. if P r c then [W r c] else []) [0..<C])) [0..<R]). f w)
      = (\<Sum>r\<leftarrow>[0..<R]. \<Sum>c\<leftarrow>[0..<C]. if P r c then f (W r c) else 0)"
    by (simp only: sum_list_concat_map sum_list_if_single)
  also have "\<dots> = (\<Sum>r\<leftarrow>[0..<R]. \<Sum>c\<leftarrow>[0..<C]. if Q r c then f (V r c) else 0)"
  proof (rule sum_list_cong_upt)
    fix r assume "r \<in> set [0..<R]"
    then have r: "r < R" by simp
    show "(\<Sum>c\<leftarrow>[0..<C]. if P r c then f (W r c) else 0) =
          (\<Sum>c\<leftarrow>[0..<C]. if Q r c then f (V r c) else 0)"
    proof (rule sum_list_cong_upt)
      fix c assume "c \<in> set [0..<C]"
      then have c: "c < C" by simp
      show "(if P r c then f (W r c) else 0) = (if Q r c then f (V r c) else 0)"
        using PQ[OF r c] WV[OF r c] by simp
    qed
  qed
  finally show ?thesis .
qed

lemma sum_list_if_const:
  "(\<Sum>c\<leftarrow>xs. if b then (F c :: int) else 0) = (if b then (\<Sum>c\<leftarrow>xs. F c) else 0)"
  by (induction xs) auto

lemma upt_4: "[0..<4] = [0, Suc 0, 2, 3]"
  by (simp add: upt_rec numeral_eq_Suc)

lemma horizontal_sum:
  "(\<Sum>w\<leftarrow>concat (map (\<lambda>r. concat (map (\<lambda>c.
        if list_all (on_board g) (line_cells 4 (int r) (int c) (0, 1))
        then [map (\<lambda>(r', c'). board g ! nat r' ! nat c') (line_cells 4 (int r) (int c) (0, 1))]
        else []) [0..<cols g])) [0..<rows g]). (f w :: int))
   = (\<Sum>w\<leftarrow>horizontal_windows g. f w)"
proof -
  have "(\<Sum>w\<leftarrow>concat (map (\<lambda>r. concat (map (\<lambda>c.
        if list_all (on_board g) (line_cells 4 (int r) (int c) (0, 1))
        then [map (\<lambda>(r', c'). board g ! nat r' ! nat c') (line_cells 4 (int r) (int c) (0, 1))]
        else []) [0..<cols g])) [0..<rows g]). f w)
     = (\<Sum>r\<leftarrow>[0..<rows g]. \<Sum>c\<leftarrow>[0..<cols g].
          if c + 3 < cols g then f (map (\<lambda>i. board g ! r ! (c + i)) [0..<4]) else 0)"
    by (rule window_sum_general)
       (auto simp: line_cells_def on_board_def upt_4 nat_add_distrib)
  also have "\<dots> = (\<Sum>r\<leftarrow>[0..<rows g]. \<Sum>c\<leftarrow>[0..<cols g - 3]. f (map (\<lambda>i. board g ! r ! (c + i)) [0..<4]))"
    by (simp only: sum_upt_guard)
  also have "\<dots> = (\<Sum>w\<leftarrow>horizontal_windows g. f w)"
    by (simp add: horizontal_windows_def sum_list_concat_map o_def)
  finally show ?thesis .
qed

lemma vertical_sum:
  "(\<Sum>w\<leftarrow>concat (map (\<lambda>r. concat (map (\<lambda>c.
        if list_all (on_board g) (line_cells 4 (int r) (int c) (1, 0))
        then [map (\<lambda>(r', c'). board g ! nat r' ! nat c') (line_cells 4 (int r) (int c) (1, 0))]
        else []) [0..<cols g])) [0..<rows g]). (f w :: int))
   = (\<Sum>w\<leftarrow>vertical_windows g. f w)"
proof -
  have "(\<Sum>w\<leftarrow>concat (map (\<lambda>r. concat (map (\<lambda>c.
        if list_all (on_board g) (line_cells 4 (int r) (int c) (1, 0))
        then [map (\<lambda>(r', c'). board g ! nat r' ! nat c') (line_cells 4 (int r) (int c) (1, 0))]
        else []) [0..<cols g])) [0..<rows g]). f w)
     = (\<Sum>r\<leftarrow>[0..<rows g]. \<Sum>c\<leftarrow>[0..<cols g].
          if r + 3 < rows g then f (map (\<lambda>i. board g ! (r + i) ! c) [0..<4]) else 0)"
    by (rule window_sum_general)
       (auto simp: line_cells_def on_board_def upt_4 nat_add_distrib)
  also have "\<dots> = (\<Sum>r\<leftarrow>[0..<rows g]. if r + 3 < rows g
                       then (\<Sum>c\<leftarrow>[0..<cols g]. f (map (\<lambda>i. board g ! (r + i) ! c) [0..<4])) else 0)"
    by (simp only: sum_list_if_const)
  also have "\<dots> = (\<Sum>r\<leftarrow>[0..<rows g - 3]. \<Sum>c\<leftarrow>[0..<cols g]. f (map (\<lambda>i. board g ! (r + i) ! c) [0..<4]))"
    by (simp only: sum_upt_guard)
  also have "\<dots> = (\<Sum>c\<leftarrow>[0..<cols g]. \<Sum>r\<leftarrow>[0..<rows g - 3]. f (map (\<lambda>i. board g ! (r + i) ! c) [0..<4]))"
    by (rule sum_list_swap_upt)
  also have "\<dots> = (\<Sum>w\<leftarrow>vertical_windows g. f w)"
    by (simp add: vertical_windows_def sum_list_concat_map o_def)
  finally show ?thesis .
qed

lemma diag_down_sum:
  "(\<Sum>w\<leftarrow>concat (map (\<lambda>r. concat (map (\<lambda>c.
        if list_all (on_board g) (line_cells 4 (int r) (int c) (1, 1))
        then [map (\<lambda>(r', c'). board g ! nat r' ! nat c') (line_cells 4 (int r) (int c) (1, 1))]
        else []) [0..<cols g])) [0..<rows g]). (f w :: int))
   = (\<Sum>w\<leftarrow>diag_down_windows g. f w)"
proof -
  have "(\<Sum>w\<leftarrow>concat (map (\<lambda>r. concat (map (\<lambda>c.
        if list_all (on_board g) (line_cells 4 (int r) (int c) (1, 1))
        then [map (\<lambda>(r', c'). board g ! nat r' ! nat c') (line_cells 4 (int r) (int c) (1, 1))]
        else []) [0..<cols g])) [0..<rows g]). f w)
     = (\<Sum>r\<leftarrow>[0..<rows g]. \<Sum>c\<leftarrow>[0..<cols g].
          if r + 3 < rows g
          then (if c + 3 < cols g then f (map (\<lambda>i. board g ! (r + i) ! (c + i)) [0..<4]) else 0)
          else 0)"
  proof -
    have "(\<Sum>w\<leftarrow>concat (map (\<lambda>r. concat (map (\<lambda>c.
        if list_all (on_board g) (line_cells 4 (int r) (int c) (1, 1))
        then [map (\<lambda>(r', c'). board g ! nat r' ! nat c') (line_cells 4 (int r) (int c) (1, 1))]
        else []) [0..<cols g])) [0..<rows g]). f w)
     = (\<Sum>r\<leftarrow>[0..<rows g]. \<Sum>c\<leftarrow>[0..<cols g].
          if r + 3 < rows g \<and> c + 3 < cols g
          then f (map (\<lambda>i. board g ! (r + i) ! (c + i)) [0..<4]) else 0)"
      by (rule window_sum_general)
         (auto simp: line_cells_def on_board_def upt_4 nat_add_distrib)
    also have "\<dots> = (\<Sum>r\<leftarrow>[0..<rows g]. \<Sum>c\<leftarrow>[0..<cols g].
          if r + 3 < rows g
          then (if c + 3 < cols g then f (map (\<lambda>i. board g ! (r + i) ! (c + i)) [0..<4]) else 0)
          else 0)"
      by (intro sum_list_cong_upt) simp
    finally show ?thesis .
  qed
  also have "\<dots> = (\<Sum>r\<leftarrow>[0..<rows g]. if r + 3 < rows g
                       then (\<Sum>c\<leftarrow>[0..<cols g]. if c + 3 < cols g
                               then f (map (\<lambda>i. board g ! (r + i) ! (c + i)) [0..<4]) else 0)
                       else 0)"
    by (simp only: sum_list_if_const)
  also have "\<dots> = (\<Sum>r\<leftarrow>[0..<rows g - 3]. \<Sum>c\<leftarrow>[0..<cols g - 3].
                       f (map (\<lambda>i. board g ! (r + i) ! (c + i)) [0..<4]))"
    by (simp only: sum_upt_guard)
  also have "\<dots> = (\<Sum>w\<leftarrow>diag_down_windows g. f w)"
    by (simp add: diag_down_windows_def sum_list_concat_map o_def)
  finally show ?thesis .
qed

lemma diag_up_sum:
  "(\<Sum>w\<leftarrow>concat (map (\<lambda>r. concat (map (\<lambda>c.
        if list_all (on_board g) (line_cells 4 (int r) (int c) (- 1, 1))
        then [map (\<lambda>(r', c'). board g ! nat r' ! nat c') (line_cells 4 (int r) (int c) (- 1, 1))]
        else []) [0..<cols g])) [0..<rows g]). (f w :: int))
   = (\<Sum>w\<leftarrow>diag_up_windows g. f w)"
proof -
  have "(\<Sum>w\<leftarrow>concat (map (\<lambda>r. concat (map (\<lambda>c.
        if list_all (on_board g) (line_cells 4 (int r) (int c) (- 1, 1))
        then [map (\<lambda>(r', c'). board g ! nat r' ! nat c') (line_cells 4 (int r) (int c) (- 1, 1))]
        else []) [0..<cols g])) [0..<rows g]). f w)
     = (\<Sum>r\<leftarrow>[0..<rows g]. \<Sum>c\<leftarrow>[0..<cols g].
          if 3 \<le> r
          then (if c + 3 < cols g then f (map (\<lambda>i. board g ! (r - i) ! (c + i)) [0..<4]) else 0)
          else 0)"
  proof -
    have "(\<Sum>w\<leftarrow>concat (map (\<lambda>r. concat (map (\<lambda>c.
        if list_all (on_board g) (line_cells 4 (int r) (int c) (- 1, 1))
        then [map (\<lambda>(r', c'). board g ! nat r' ! nat c') (line_cells 4 (int r) (int c) (- 1, 1))]
        else []) [0..<cols g])) [0..<rows g]). f w)
     = (\<Sum>r\<leftarrow>[0..<rows g]. \<Sum>c\<leftarrow>[0..<cols g].
          if 3 \<le> r \<and> c + 3 < cols g
          then f (map (\<lambda>i. board g ! (r - i) ! (c + i)) [0..<4]) else 0)"
      by (rule window_sum_general)
         (auto simp: line_cells_def on_board_def upt_4 nat_add_distrib nat_diff_distrib)
    also have "\<dots> = (\<Sum>r\<leftarrow>[0..<rows g]. \<Sum>c\<leftarrow>[0..<cols g].
          if 3 \<le> r
          then (if c + 3 < cols g then f (map (\<lambda>i. board g ! (r - i) ! (c + i)) [0..<4]) else 0)
          else 0)"
      by (intro sum_list_cong_upt) simp
    finally show ?thesis .
  qed
  also have "\<dots> = (\<Sum>r\<leftarrow>[0..<rows g]. if 3 \<le> r
                       then (\<Sum>c\<leftarrow>[0..<cols g]. if c + 3 < cols g
                               then f (map (\<lambda>i. board g ! (r - i) ! (c + i)) [0..<4]) else 0)
                       else 0)"
    by (simp only: sum_list_if_const)
  also have "\<dots> = (\<Sum>r\<leftarrow>[3..<rows g]. \<Sum>c\<leftarrow>[0..<cols g - 3].
                       f (map (\<lambda>i. board g ! (r - i) ! (c + i)) [0..<4]))"
    by (simp only: sum_upt_guard sum_upt_guard_low)
  also have "\<dots> = (\<Sum>w\<leftarrow>diag_up_windows g. f w)"
    by (simp add: diag_up_windows_def sum_list_concat_map o_def)
  finally show ?thesis .
qed

lemma windows_spec_sum:
  "(\<Sum>w\<leftarrow>windows_spec 4 g. (f w :: int)) =
     (\<Sum>w\<leftarrow>horizontal_windows g. f w) + (\<Sum>w\<leftarrow>vertical_windows g. f w)
     + (\<Sum>w\<leftarrow>diag_down_windows g. f w) + (\<Sum>w\<leftarrow>diag_up_windows g. f w)"
  unfolding windows_spec_def directions_def
  by (simp add: horizontal_sum vertical_sum diag_down_sum diag_up_sum)

lemma windows_spec_length: "w \<in> set (windows_spec k g) \<Longrightarrow> length w = k"
  by (auto simp: windows_spec_def line_cells_def split: if_splits)




text \<open>
  Claim C4. For a non-terminal state (no winner, board not full) and a perspective player
  other than 0, \<open>evaluate\<close> is the centre-column term, 6 for each own disc and -6 for each
  opposing disc in column \<open>cols div 2\<close>, plus the table value of every 4-cell window that
  fits on the board in one of the four directions.
\<close>

theorem evaluate_matches_spec:
  assumes "\<not> terminal g" and "p \<noteq> 0"
  shows "evaluate g p = evaluate_spec g p"
proof -
  from assms(1) have w: "winner g = 0" and nf: "\<not> is_full g"
    by (simp_all add: terminal_def)
  have "(\<Sum>w\<leftarrow>windows_spec 4 g. window_score_spec p w) = (\<Sum>w\<leftarrow>windows_spec 4 g. score_window p w)"
    by (rule sum_list_cong_upt) (simp add: score_window_table[OF assms(2)] windows_spec_length)
  also have "\<dots> = (\<Sum>w\<leftarrow>horizontal_windows g. score_window p w)
      + (\<Sum>w\<leftarrow>vertical_windows g. score_window p w)
      + (\<Sum>w\<leftarrow>diag_down_windows g. score_window p w)
      + (\<Sum>w\<leftarrow>diag_up_windows g. score_window p w)"
    by (rule windows_spec_sum)
  finally have ws: "(\<Sum>w\<leftarrow>windows_spec 4 g. window_score_spec p w) =
      (\<Sum>w\<leftarrow>horizontal_windows g. score_window p w)
      + (\<Sum>w\<leftarrow>vertical_windows g. score_window p w)
      + (\<Sum>w\<leftarrow>diag_down_windows g. score_window p w)
      + (\<Sum>w\<leftarrow>diag_up_windows g. score_window p w)" .
  from w nf assms(2) have "evaluate g p = 6 * center_delta g p
      + (\<Sum>w\<leftarrow>horizontal_windows g. score_window p w)
      + (\<Sum>w\<leftarrow>vertical_windows g. score_window p w)
      + (\<Sum>w\<leftarrow>diag_down_windows g. score_window p w)
      + (\<Sum>w\<leftarrow>diag_up_windows g. score_window p w)"
    by (simp add: evaluate_def Let_def)
  with ws center_eq[OF assms(2), of g] show ?thesis
    by (simp add: evaluate_spec_def)
qed


lemma midgame_not_terminal: "\<not> terminal midgame"
  by code_simp

lemma evaluate_spec_midgame: "evaluate_spec midgame 1 = 150"
  by code_simp

theorem evaluate_matches_spec_witness:
  "\<not> terminal midgame \<and> evaluate midgame 1 = 150"
  using evaluate_matches_spec [OF midgame_not_terminal, of 1] midgame_not_terminal
    evaluate_spec_midgame
  by simp

text \<open>
  The value of \<open>evaluate\<close> by its four branches, the last one over the list \<open>windows\<close>,
  and the only way the win length reaches it: through \<open>winner\<close>.
\<close>

lemma evaluate_by_windows:
  "evaluate g p =
     (if winner g = p then WIN_SCORE
      else if winner g = - p then - WIN_SCORE
      else if is_full g then 0
      else 6 * center_delta g p + (\<Sum>w\<leftarrow>windows g. score_window p w))"
  by (simp add: evaluate_def Let_def windows_def)

lemma evaluate_connect_update:
  "winner (g \<lparr> connect := k \<rparr>) = winner g \<Longrightarrow> evaluate (g \<lparr> connect := k \<rparr>) p = evaluate g p"
  by (simp add: evaluate_def Let_def is_full_def center_delta_def horizontal_windows_def
      vertical_windows_def diag_down_windows_def diag_up_windows_def cong: if_cong)

lemma connect5_winner: "winner (connect5_game \<lparr> connect := 4 \<rparr>) = winner connect5_game"
  by code_simp

lemma connect5_evaluate: "evaluate connect5_game 1 = 230"
  by code_simp

text \<open>
  Claim C5, as the code has it. Whatever the win length of the state is, \<open>evaluate\<close>
  returns the win score, its negation or 0 in its first three branches and otherwise the
  centre term plus the score of every window of \<open>windows\<close>; each of these windows has
  four cells, and changing \<open>connect\<close> changes no window. The win length reaches
  \<open>evaluate\<close> through \<open>winner\<close> only: a state with another win length and the same
  winner has the same value.
\<close>

theorem evaluate_windows_fixed_length:
  "list_all (\<lambda>w. length w = 4) (windows g)
   \<and> windows (g \<lparr> connect := k \<rparr>) = windows g
   \<and> evaluate g p =
       (if winner g = p then WIN_SCORE
        else if winner g = - p then - WIN_SCORE
        else if is_full g then 0
        else 6 * center_delta g p + (\<Sum>w\<leftarrow>windows g. score_window p w))
   \<and> (winner (g \<lparr> connect := k \<rparr>) = winner g \<longrightarrow>
        evaluate (g \<lparr> connect := k \<rparr>) p = evaluate g p)"
proof -
  have "list_all (\<lambda>w. length w = 4) (windows g)" "windows (g \<lparr> connect := k \<rparr>) = windows g"
    by (auto simp: windows_def horizontal_windows_def vertical_windows_def diag_down_windows_def
        diag_up_windows_def list_all_iff)
  with evaluate_by_windows evaluate_connect_update show ?thesis by blast
qed

theorem evaluate_windows_fixed_length_witness:
  "winner (connect5_game \<lparr> connect := 4 \<rparr>) = winner connect5_game
   \<and> connect (connect5_game \<lparr> connect := 4 \<rparr>) \<noteq> connect connect5_game
   \<and> evaluate (connect5_game \<lparr> connect := 4 \<rparr>) 1 = 230"
  using evaluate_windows_fixed_length [where g = connect5_game and k = 4 and p = 1]
    connect5_winner connect5_evaluate
  by (simp add: connect5_game_def)

text \<open>
  Claim C5 as stated fails: with win length 5 the windows scored still have length 4, and
  the score (230) is not the one that windows of length 5 give (0).
\<close>

theorem windows_length_counterexample:
  "windows connect5_game \<noteq> []
   \<and> length (hd (windows connect5_game)) = 4
   \<and> connect connect5_game = 5
   \<and> evaluate connect5_game 1 = 230
   \<and> evaluate_connect_spec connect5_game 1 = 0"
  by code_simp

section \<open>Properties of the search engine\<close>

subsection \<open>The state around a move and around the tracer\<close>

declare mm_max_value.simps [simp del] mm_min_value.simps [simp del]
  mm_max_loop.simps [simp del] mm_min_loop.simps [simp del]
  ab_max_value.simps [simp del] ab_min_value.simps [simp del]
  ab_max_loop.simps [simp del] ab_min_loop.simps [simp del]
  mmt_max.simps [simp del] mmt_min.simps [simp del]
  abt_max.simps [simp del] abt_min.simps [simp del]

lemma play_last_move:
  assumes "wf_game g" and "a \<in> set (actions g)"
  shows "play (g \<lparr> last_move := lm \<rparr>) a = play g a"
proof -
  from assms(2) have c: "0 \<le> a" "a < int (cols g)" "board g ! 0 ! nat a = 0"
    by (simp_all add: mem_actions)
  from drop_disc_legal[OF assms(1) c, of None] obtain r where
    "lowest_empty (board g) (nat a) (rows g) = Some r" by blast
  with c show ?thesis
    by (simp add: play_def drop_disc_def Let_def)
qed

lemma wf_game_last_move [simp]: "wf_game (g \<lparr> last_move := lm \<rparr>) = wf_game g"
  by (simp add: wf_game_def)

lemma restored_refl [simp]: "restored g g"
  by (simp add: restored_def)

lemma restored_None [simp]: "restored g (g \<lparr> last_move := None \<rparr>)"
  by (simp add: restored_def)

lemma restored_trans: "restored g g1 \<Longrightarrow> restored g1 g2 \<Longrightarrow> restored g g2"
  by (auto simp: restored_def)

lemma restored_play:
  "wf_game g \<Longrightarrow> a \<in> set (actions g) \<Longrightarrow> restored g g' \<Longrightarrow> play g' a = play g a"
  by (auto simp: restored_def play_last_move)

lemma restored_wf: "restored g g' \<Longrightarrow> wf_game g' = wf_game g"
  by (auto simp: restored_def)

lemma restored_actions: "restored g g' \<Longrightarrow> actions g' = actions g"
  by (auto simp: restored_def)

lemma restored_clear: "restored g g' \<Longrightarrow> g' \<lparr> last_move := None \<rparr> = g \<lparr> last_move := None \<rparr>"
  by (auto simp: restored_def)

lemma restored_fields:
  "restored g g' \<Longrightarrow> board g' = board g \<and> current_player g' = current_player g \<and>
     rows g' = rows g \<and> cols g' = cols g \<and> connect g' = connect g"
  by (auto simp: restored_def)

text \<open>One ply of the loops: play a legal move, let the child run, take the move back.\<close>

lemma play_and_undo:
  assumes wf: "wf_game g" and r: "restored g g0" and a: "a \<in> set (actions g)"
  shows "\<exists>mv. drop_disc g0 a None = (Inr mv, play g a) \<and> wf_game (play g a) \<and>
           (\<forall>g2. restored (play g a) g2 \<longrightarrow> undo_disc g2 mv = (Inr (), g \<lparr> last_move := None \<rparr>))"
proof -
  from r wf have wf0: "wf_game g0" by (simp add: restored_wf)
  from r a have a0: "a \<in> set (actions g0)" by (simp add: restored_actions)
  from drop_then_undo[OF wf0 a0] obtain mv g1 where
    d: "drop_disc g0 a None = (Inr mv, g1)" and wf1: "wf_game g1" and
    u1: "undo_disc g1 mv = (Inr (), g0 \<lparr> last_move := None \<rparr>)" and
    u2: "undo_disc (g1 \<lparr> last_move := None \<rparr>) mv = (Inr (), g0 \<lparr> last_move := None \<rparr>)"
    by blast
  from d have p: "g1 = play g a" using restored_play[OF wf a r] by (simp add: play_def)
  from u1 u2 have "\<forall>g2. restored g1 g2 \<longrightarrow> undo_disc g2 mv = (Inr (), g \<lparr> last_move := None \<rparr>)"
    using restored_clear[OF r] by (auto simp: restored_def)
  with d wf1 p show ?thesis by auto
qed

lemma pruned_total_new_node:
  "pruned_total (Some (snd (new_node tr par mv dep turn knd al be pr))) =
     pruned_total (Some tr) + (if pr then 1 else 0)"
  by (simp add: pruned_total_def new_node_def)

lemma set_value_nodes_pruned:
  "length (filter tn_pruned (set_value_nodes ns i v al be)) = length (filter tn_pruned ns)"
  by (induction ns) auto

lemma pruned_total_set_value:
  "pruned_total (Some (set_value tr i v al be)) = pruned_total (Some tr)"
  by (simp add: pruned_total_def set_value_def set_value_nodes_pruned)

lemma pruned_total_pruned_nodes:
  "pruned_total (Some (pruned_nodes tr nid rest dep turn al be)) = pruned_total (Some tr) + length rest"
  by (induction rest arbitrary: tr) (simp_all add: pruned_total_new_node)

lemma enter_node_frame [simp]:
  "game (enter_node d s) = game s"
  "tracer (enter_node d s) = tracer s"
  "nodes_expanded (metrics (enter_node d s)) = nodes_expanded (metrics s) + 1"
  by (simp_all add: enter_node_def)

lemma trace_child_frame:
  assumes "trace_child within ai nid a dep al be s = (cid, s1)"
  shows "game s1 = game s" "metrics s1 = metrics s" "pruned_total (tracer s1) = pruned_total (tracer s)"
  using assms
  by (auto simp: trace_child_def pruned_total_new_node split: option.splits if_splits prod.splits)
     (auto simp: pruned_total_def new_node_def)

lemma trace_root_frame:
  assumes "trace_root ai al be s = (rid, s1)"
  shows "game s1 = game s" "metrics s1 = metrics s" "pruned_total (tracer s1) = pruned_total (tracer s)"
  using assms
  by (auto simp: trace_root_def split: option.splits if_splits prod.splits)
     (auto simp: pruned_total_def new_node_def)

lemma trace_value_frame [simp]:
  "game (trace_value within nid v al be s) = game s"
  "metrics (trace_value within nid v al be s) = metrics s"
  "pruned_total (tracer (trace_value within nid v al be s)) = pruned_total (tracer s)"
  by (auto simp: trace_value_def pruned_total_set_value split: option.splits)

lemma trace_pruned_frame:
  "game (trace_pruned within nid rest dep al be s) = game s"
  "metrics (trace_pruned within nid rest dep al be s) = metrics s"
  "pruned_total (tracer (trace_pruned within nid rest dep al be s)) \<le> pruned_total (tracer s) + length rest"
  by (auto simp: trace_pruned_def pruned_total_pruned_nodes split: option.splits)

subsection \<open>Minimax computes the tree value and leaves the position\<close>
lemma mm_max_loop_link:
  assumes child: "\<And>nid s. wf_game (game s) \<Longrightarrow>
      \<exists>s'. mm_min_value ai dl (d + 1) nid s = Inr (fst (mmt_min ai dl (d + 1) (game s)), s') \<and>
           state_after s s' (snd (mmt_min ai dl (d + 1) (game s))) 0"
    and wf: "wf_game g"
  shows "restored g (game s) \<Longrightarrow> set acts \<subseteq> set (actions g) \<Longrightarrow>
     \<exists>s'. mm_max_loop ai dl d nid acts v s =
             Inr (fst (mmt_max_loop ai dl d (map (play g) acts) v), s') \<and>
          restored g (game s') \<and>
          nodes_expanded (metrics s') =
            nodes_expanded (metrics s) + snd (mmt_max_loop ai dl d (map (play g) acts) v) \<and>
          pruned_total (tracer s') \<le> pruned_total (tracer s)"
proof (induction acts arbitrary: v s)
  case Nil
  then show ?case by (simp add: mm_max_loop.simps)
next
  case (Cons a rest)
  from Cons.prems(2) have a: "a \<in> set (actions g)" and rest: "set rest \<subseteq> set (actions g)"
    by simp_all
  from play_and_undo[OF wf Cons.prems(1) a] obtain mv where
    d: "drop_disc (game s) a None = (Inr mv, play g a)" and wf1: "wf_game (play g a)" and
    u: "\<And>g2. restored (play g a) g2 \<Longrightarrow> undo_disc g2 mv = (Inr (), g \<lparr> last_move := None \<rparr>)"
    by blast
  obtain cid s1 where tc: "trace_child (\<lambda>tr. d < trace_depth tr) ai nid a (d + 1) None None
      (s \<lparr> game := play g a \<rparr>) = (cid, s1)"
    by (cases "trace_child (\<lambda>tr. d < trace_depth tr) ai nid a (d + 1) None None (s \<lparr> game := play g a \<rparr>)")
  from trace_child_frame[OF tc] have f1: "game s1 = play g a" "metrics s1 = metrics s"
    "pruned_total (tracer s1) = pruned_total (tracer s)" by simp_all
  from child[of s1 cid] wf1 f1(1) obtain s2 where
    c: "mm_min_value ai dl (d + 1) cid s1 = Inr (fst (mmt_min ai dl (d + 1) (play g a)), s2)" and
    sa: "state_after s1 s2 (snd (mmt_min ai dl (d + 1) (play g a))) 0"
    by auto
  from sa f1 have r2: "restored (play g a) (game s2)"
    and n2: "nodes_expanded (metrics s2) =
               nodes_expanded (metrics s) + snd (mmt_min ai dl (d + 1) (play g a))"
    and p2: "pruned_total (tracer s2) \<le> pruned_total (tracer s)"
    by (simp_all add: state_after_def)
  from u[OF r2] have ud: "undo_disc (game s2) mv = (Inr (), g \<lparr> last_move := None \<rparr>)" .
  let ?val = "fst (mmt_min ai dl (d + 1) (play g a))"
  let ?v' = "if ?val > v then ?val else v"
  let ?s3 = "s2 \<lparr> game := g \<lparr> last_move := None \<rparr> \<rparr>"
  have r3: "restored g (game ?s3)" by simp
  from Cons.IH[OF r3 rest, of ?v'] obtain s' where
    l: "mm_max_loop ai dl d nid rest ?v' ?s3 =
          Inr (fst (mmt_max_loop ai dl d (map (play g) rest) ?v'), s')" and
    r': "restored g (game s')" and
    n': "nodes_expanded (metrics s') =
           nodes_expanded (metrics ?s3) + snd (mmt_max_loop ai dl d (map (play g) rest) ?v')" and
    p': "pruned_total (tracer s') \<le> pruned_total (tracer ?s3)"
    by blast
  have step: "mm_max_loop ai dl d nid (a # rest) v s = mm_max_loop ai dl d nid rest ?v' ?s3"
    by (simp add: mm_max_loop.simps d tc c ud)
  have pure: "mmt_max_loop ai dl d (map (play g) (a # rest)) v =
      (fst (mmt_max_loop ai dl d (map (play g) rest) ?v'),
       snd (mmt_min ai dl (d + 1) (play g a)) + snd (mmt_max_loop ai dl d (map (play g) rest) ?v'))"
    by (simp add: split_beta)
  show ?case
    unfolding step pure using l r' n' p' n2 p2 by simp
qed

lemma mm_min_loop_link:
  assumes child: "\<And>nid s. wf_game (game s) \<Longrightarrow>
      \<exists>s'. mm_max_value ai dl (d + 1) nid s = Inr (fst (mmt_max ai dl (d + 1) (game s)), s') \<and>
           state_after s s' (snd (mmt_max ai dl (d + 1) (game s))) 0"
    and wf: "wf_game g"
  shows "restored g (game s) \<Longrightarrow> set acts \<subseteq> set (actions g) \<Longrightarrow>
     \<exists>s'. mm_min_loop ai dl d nid acts v s =
             Inr (fst (mmt_min_loop ai dl d (map (play g) acts) v), s') \<and>
          restored g (game s') \<and>
          nodes_expanded (metrics s') =
            nodes_expanded (metrics s) + snd (mmt_min_loop ai dl d (map (play g) acts) v) \<and>
          pruned_total (tracer s') \<le> pruned_total (tracer s)"
proof (induction acts arbitrary: v s)
  case Nil
  then show ?case by (simp add: mm_min_loop.simps)
next
  case (Cons a rest)
  from Cons.prems(2) have a: "a \<in> set (actions g)" and rest: "set rest \<subseteq> set (actions g)"
    by simp_all
  from play_and_undo[OF wf Cons.prems(1) a] obtain mv where
    d: "drop_disc (game s) a None = (Inr mv, play g a)" and wf1: "wf_game (play g a)" and
    u: "\<And>g2. restored (play g a) g2 \<Longrightarrow> undo_disc g2 mv = (Inr (), g \<lparr> last_move := None \<rparr>)"
    by blast
  obtain cid s1 where tc: "trace_child (\<lambda>tr. d < trace_depth tr) ai nid a (d + 1) None None
      (s \<lparr> game := play g a \<rparr>) = (cid, s1)"
    by (cases "trace_child (\<lambda>tr. d < trace_depth tr) ai nid a (d + 1) None None (s \<lparr> game := play g a \<rparr>)")
  from trace_child_frame[OF tc] have f1: "game s1 = play g a" "metrics s1 = metrics s"
    "pruned_total (tracer s1) = pruned_total (tracer s)" by simp_all
  from child[of s1 cid] wf1 f1(1) obtain s2 where
    c: "mm_max_value ai dl (d + 1) cid s1 = Inr (fst (mmt_max ai dl (d + 1) (play g a)), s2)" and
    sa: "state_after s1 s2 (snd (mmt_max ai dl (d + 1) (play g a))) 0"
    by auto
  from sa f1 have r2: "restored (play g a) (game s2)"
    and n2: "nodes_expanded (metrics s2) =
               nodes_expanded (metrics s) + snd (mmt_max ai dl (d + 1) (play g a))"
    and p2: "pruned_total (tracer s2) \<le> pruned_total (tracer s)"
    by (simp_all add: state_after_def)
  from u[OF r2] have ud: "undo_disc (game s2) mv = (Inr (), g \<lparr> last_move := None \<rparr>)" .
  let ?val = "fst (mmt_max ai dl (d + 1) (play g a))"
  let ?v' = "if ?val < v then ?val else v"
  let ?s3 = "s2 \<lparr> game := g \<lparr> last_move := None \<rparr> \<rparr>"
  have r3: "restored g (game ?s3)" by simp
  from Cons.IH[OF r3 rest, of ?v'] obtain s' where
    l: "mm_min_loop ai dl d nid rest ?v' ?s3 =
          Inr (fst (mmt_min_loop ai dl d (map (play g) rest) ?v'), s')" and
    r': "restored g (game s')" and
    n': "nodes_expanded (metrics s') =
           nodes_expanded (metrics ?s3) + snd (mmt_min_loop ai dl d (map (play g) rest) ?v')" and
    p': "pruned_total (tracer s') \<le> pruned_total (tracer ?s3)"
    by blast
  have step: "mm_min_loop ai dl d nid (a # rest) v s = mm_min_loop ai dl d nid rest ?v' ?s3"
    by (simp add: mm_min_loop.simps d tc c ud)
  have pure: "mmt_min_loop ai dl d (map (play g) (a # rest)) v =
      (fst (mmt_min_loop ai dl d (map (play g) rest) ?v'),
       snd (mmt_max ai dl (d + 1) (play g a)) + snd (mmt_min_loop ai dl d (map (play g) rest) ?v'))"
    by (simp add: split_beta)
  show ?case
    unfolding step pure using l r' n' p' n2 p2 by simp
qed

lemma mm_value_link:
  "wf_game (game s) \<Longrightarrow>
   (\<exists>s'. mm_max_value ai dl d nid s = Inr (fst (mmt_max ai dl d (game s)), s') \<and>
         state_after s s' (snd (mmt_max ai dl d (game s))) 0) \<and>
   (\<exists>s'. mm_min_value ai dl d nid s = Inr (fst (mmt_min ai dl d (game s)), s') \<and>
         state_after s s' (snd (mmt_min ai dl d (game s))) 0)"
proof (induction "nat (dl - d)" arbitrary: d nid s rule: less_induct)
  case less
  note wf = less.prems
  have child: "\<And>nid s. wf_game (game s) \<Longrightarrow>
      \<exists>s'. mm_min_value ai dl (d + 1) nid s = Inr (fst (mmt_min ai dl (d + 1) (game s)), s') \<and>
           state_after s s' (snd (mmt_min ai dl (d + 1) (game s))) 0"
    if "\<not> d \<ge> dl"
    using less.hyps[of "d + 1"] that by auto
  have child': "\<And>nid s. wf_game (game s) \<Longrightarrow>
      \<exists>s'. mm_max_value ai dl (d + 1) nid s = Inr (fst (mmt_max ai dl (d + 1) (game s)), s') \<and>
           state_after s s' (snd (mmt_max ai dl (d + 1) (game s))) 0"
    if "\<not> d \<ge> dl"
    using less.hyps[of "d + 1"] that by auto

  have "\<exists>s'. mm_max_value ai dl d nid s = Inr (fst (mmt_max ai dl d (game s)), s') \<and>
             state_after s s' (snd (mmt_max ai dl d (game s))) 0"
  proof (cases "terminal (game s) \<or> d \<ge> dl")
    case True
    then show ?thesis
      by (auto simp: mm_max_value.simps mmt_max.simps Let_def state_after_def)
  next
    case False
    then have nt: "\<not> terminal (game s)" and dlt: "\<not> d \<ge> dl" by simp_all
    have rr: "restored (game s) (game (enter_node d s))" by simp
    from mm_max_loop_link[where ai = ai and dl = dl and d = d and g = "game s"
        and s = "enter_node d s" and acts = "actions (game s)" and v = "- INF_VAL" and nid = nid,
        OF child[OF dlt] wf rr]
    obtain s' where
      l: "mm_max_loop ai dl d nid (actions (game s)) (- INF_VAL) (enter_node d s) =
            Inr (fst (mmt_max_loop ai dl d (map (play (game s)) (actions (game s))) (- INF_VAL)), s')" and
      r': "restored (game s) (game s')" and
      n': "nodes_expanded (metrics s') = nodes_expanded (metrics (enter_node d s)) +
             snd (mmt_max_loop ai dl d (map (play (game s)) (actions (game s))) (- INF_VAL))" and
      p': "pruned_total (tracer s') \<le> pruned_total (tracer (enter_node d s))"
      by auto
    from nt dlt l r' n' p' show ?thesis
      by (simp add: mm_max_value.simps mmt_max.simps Let_def state_after_def split_beta)
  qed
  moreover

  have "\<exists>s'. mm_min_value ai dl d nid s = Inr (fst (mmt_min ai dl d (game s)), s') \<and>
             state_after s s' (snd (mmt_min ai dl d (game s))) 0"
  proof (cases "terminal (game s) \<or> d \<ge> dl")
    case True
    then show ?thesis
      by (auto simp: mm_min_value.simps mmt_min.simps Let_def state_after_def)
  next
    case False
    then have nt: "\<not> terminal (game s)" and dlt: "\<not> d \<ge> dl" by simp_all
    have rr: "restored (game s) (game (enter_node d s))" by simp
    from mm_min_loop_link[where ai = ai and dl = dl and d = d and g = "game s"
        and s = "enter_node d s" and acts = "actions (game s)" and v = "INF_VAL" and nid = nid,
        OF child'[OF dlt] wf rr]
    obtain s' where
      l: "mm_min_loop ai dl d nid (actions (game s)) (INF_VAL) (enter_node d s) =
            Inr (fst (mmt_min_loop ai dl d (map (play (game s)) (actions (game s))) (INF_VAL)), s')" and
      r': "restored (game s) (game s')" and
      n': "nodes_expanded (metrics s') = nodes_expanded (metrics (enter_node d s)) +
             snd (mmt_min_loop ai dl d (map (play (game s)) (actions (game s))) (INF_VAL))" and
      p': "pruned_total (tracer s') \<le> pruned_total (tracer (enter_node d s))"
      by auto
    from nt dlt l r' n' p' show ?thesis
      by (simp add: mm_min_value.simps mmt_min.simps Let_def state_after_def split_beta)
  qed
  ultimately show ?case by blast
qed

subsection \<open>Alpha-beta computes its tree value and leaves the position\<close>
lemma ab_max_loop_link:
  assumes child: "\<And>nid s al be. wf_game (game s) \<Longrightarrow>
      \<exists>s'. ab_min_value ai dl (d + 1) al be nid s =
             Inr (fst (abt_min ai dl (d + 1) al be (game s)), s') \<and>
           state_after s s' (fst (snd (abt_min ai dl (d + 1) al be (game s))))
             (snd (snd (abt_min ai dl (d + 1) al be (game s))))"
    and wf: "wf_game g"
  shows "restored g (game s) \<Longrightarrow> set acts \<subseteq> set (actions g) \<Longrightarrow>
     \<exists>b' s'. ab_max_loop ai dl d nid acts v al be s =
             Inr (fst (abt_max_loop ai dl d (map (play g) acts) v al be), b', s') \<and>
          restored g (game s') \<and>
          nodes_expanded (metrics s') =
            nodes_expanded (metrics s) + fst (snd (abt_max_loop ai dl d (map (play g) acts) v al be)) \<and>
          pruned_total (tracer s') \<le>
            pruned_total (tracer s) + snd (snd (abt_max_loop ai dl d (map (play g) acts) v al be))"
proof (induction acts arbitrary: v al be s)
  case Nil
  then show ?case by (simp add: ab_max_loop.simps)
next
  case (Cons a rest)
  from Cons.prems(2) have a: "a \<in> set (actions g)" and rest: "set rest \<subseteq> set (actions g)"
    by simp_all
  from play_and_undo[OF wf Cons.prems(1) a] obtain mv where
    d: "drop_disc (game s) a None = (Inr mv, play g a)" and wf1: "wf_game (play g a)" and
    u: "\<And>g2. restored (play g a) g2 \<Longrightarrow> undo_disc g2 mv = (Inr (), g \<lparr> last_move := None \<rparr>)"
    by blast
  obtain cid s1 where tc: "trace_child (\<lambda>tr. d < trace_depth tr) ai nid a (d + 1) (Some al) (Some be)
      (s \<lparr> game := play g a \<rparr>) = (cid, s1)"
    by (cases "trace_child (\<lambda>tr. d < trace_depth tr) ai nid a (d + 1) (Some al) (Some be)
      (s \<lparr> game := play g a \<rparr>)")
  from trace_child_frame[OF tc] have f1: "game s1 = play g a" "metrics s1 = metrics s"
    "pruned_total (tracer s1) = pruned_total (tracer s)" by simp_all
  let ?res = "abt_min ai dl (d + 1) al be (play g a)"
  from child[of s1 al be cid] wf1 f1(1) obtain s2 where
    c: "ab_min_value ai dl (d + 1) al be cid s1 = Inr (fst ?res, s2)" and
    sa: "state_after s1 s2 (fst (snd ?res)) (snd (snd ?res))"
    by auto
  from sa f1 have r2: "restored (play g a) (game s2)"
    and n2: "nodes_expanded (metrics s2) = nodes_expanded (metrics s) + fst (snd ?res)"
    and p2: "pruned_total (tracer s2) \<le> pruned_total (tracer s) + snd (snd ?res)"
    by (simp_all add: state_after_def)
  from u[OF r2] have ud: "undo_disc (game s2) mv = (Inr (), g \<lparr> last_move := None \<rparr>)" .
  let ?val = "fst ?res"
  let ?v' = "if ?val > v then ?val else v"
  let ?b' = "if ?v' > al then ?v' else al"
  let ?s3 = "s2 \<lparr> game := g \<lparr> last_move := None \<rparr> \<rparr>"
  show ?case
  proof (cases "?b' \<ge> be")
    case True
    have step: "ab_max_loop ai dl d nid (a # rest) v al be s =
        Inr (?v', ?b', trace_pruned (\<lambda>tr. d < trace_depth tr) nid rest (d + 1) ?b' be ?s3)"
      using True by (simp add: ab_max_loop.simps d tc c ud Let_def)
    have pure: "abt_max_loop ai dl d (map (play g) (a # rest)) v al be =
        (?v', fst (snd ?res), snd (snd ?res) + length rest)"
      using True by (simp add: split_beta Let_def)
    from trace_pruned_frame(3)[of "\<lambda>tr. d < trace_depth tr" nid rest "d + 1" "?b'" be ?s3]
    have "pruned_total (tracer (trace_pruned (\<lambda>tr. d < trace_depth tr) nid rest (d + 1) ?b' be ?s3))
           \<le> pruned_total (tracer s2) + length rest" by simp
    with p2 n2 show ?thesis
      unfolding step pure by (simp add: trace_pruned_frame)
  next
    case False
    have r3: "restored g (game ?s3)" by simp
    from Cons.IH[OF r3 rest, of ?v' ?b' be] obtain b' s' where
      l: "ab_max_loop ai dl d nid rest ?v' ?b' be ?s3 =
            Inr (fst (abt_max_loop ai dl d (map (play g) rest) ?v' ?b' be), b', s')" and
      r': "restored g (game s')" and
      n': "nodes_expanded (metrics s') = nodes_expanded (metrics ?s3) +
             fst (snd (abt_max_loop ai dl d (map (play g) rest) ?v' ?b' be))" and
      p': "pruned_total (tracer s') \<le> pruned_total (tracer ?s3) +
             snd (snd (abt_max_loop ai dl d (map (play g) rest) ?v' ?b' be))"
      by blast
    have step: "ab_max_loop ai dl d nid (a # rest) v al be s =
        ab_max_loop ai dl d nid rest ?v' ?b' be ?s3"
      using False by (simp add: ab_max_loop.simps d tc c ud Let_def)
    have pure: "abt_max_loop ai dl d (map (play g) (a # rest)) v al be =
        (fst (abt_max_loop ai dl d (map (play g) rest) ?v' ?b' be),
         fst (snd ?res) + fst (snd (abt_max_loop ai dl d (map (play g) rest) ?v' ?b' be)),
         snd (snd ?res) + snd (snd (abt_max_loop ai dl d (map (play g) rest) ?v' ?b' be)))"
      using False by (simp add: split_beta Let_def)
    show ?thesis
      unfolding step pure using l r' n' p' n2 p2 by simp
  qed
qed

lemma ab_min_loop_link:
  assumes child: "\<And>nid s al be. wf_game (game s) \<Longrightarrow>
      \<exists>s'. ab_max_value ai dl (d + 1) al be nid s =
             Inr (fst (abt_max ai dl (d + 1) al be (game s)), s') \<and>
           state_after s s' (fst (snd (abt_max ai dl (d + 1) al be (game s))))
             (snd (snd (abt_max ai dl (d + 1) al be (game s))))"
    and wf: "wf_game g"
  shows "restored g (game s) \<Longrightarrow> set acts \<subseteq> set (actions g) \<Longrightarrow>
     \<exists>b' s'. ab_min_loop ai dl d nid acts v al be s =
             Inr (fst (abt_min_loop ai dl d (map (play g) acts) v al be), b', s') \<and>
          restored g (game s') \<and>
          nodes_expanded (metrics s') =
            nodes_expanded (metrics s) + fst (snd (abt_min_loop ai dl d (map (play g) acts) v al be)) \<and>
          pruned_total (tracer s') \<le>
            pruned_total (tracer s) + snd (snd (abt_min_loop ai dl d (map (play g) acts) v al be))"
proof (induction acts arbitrary: v al be s)
  case Nil
  then show ?case by (simp add: ab_min_loop.simps)
next
  case (Cons a rest)
  from Cons.prems(2) have a: "a \<in> set (actions g)" and rest: "set rest \<subseteq> set (actions g)"
    by simp_all
  from play_and_undo[OF wf Cons.prems(1) a] obtain mv where
    d: "drop_disc (game s) a None = (Inr mv, play g a)" and wf1: "wf_game (play g a)" and
    u: "\<And>g2. restored (play g a) g2 \<Longrightarrow> undo_disc g2 mv = (Inr (), g \<lparr> last_move := None \<rparr>)"
    by blast
  obtain cid s1 where tc: "trace_child (\<lambda>tr. d < trace_depth tr) ai nid a (d + 1) (Some al) (Some be)
      (s \<lparr> game := play g a \<rparr>) = (cid, s1)"
    by (cases "trace_child (\<lambda>tr. d < trace_depth tr) ai nid a (d + 1) (Some al) (Some be)
      (s \<lparr> game := play g a \<rparr>)")
  from trace_child_frame[OF tc] have f1: "game s1 = play g a" "metrics s1 = metrics s"
    "pruned_total (tracer s1) = pruned_total (tracer s)" by simp_all
  let ?res = "abt_max ai dl (d + 1) al be (play g a)"
  from child[of s1 al be cid] wf1 f1(1) obtain s2 where
    c: "ab_max_value ai dl (d + 1) al be cid s1 = Inr (fst ?res, s2)" and
    sa: "state_after s1 s2 (fst (snd ?res)) (snd (snd ?res))"
    by auto
  from sa f1 have r2: "restored (play g a) (game s2)"
    and n2: "nodes_expanded (metrics s2) = nodes_expanded (metrics s) + fst (snd ?res)"
    and p2: "pruned_total (tracer s2) \<le> pruned_total (tracer s) + snd (snd ?res)"
    by (simp_all add: state_after_def)
  from u[OF r2] have ud: "undo_disc (game s2) mv = (Inr (), g \<lparr> last_move := None \<rparr>)" .
  let ?val = "fst ?res"
  let ?v' = "if ?val < v then ?val else v"
  let ?b' = "if ?v' < be then ?v' else be"
  let ?s3 = "s2 \<lparr> game := g \<lparr> last_move := None \<rparr> \<rparr>"
  show ?case
  proof (cases "al \<ge> ?b'")
    case True
    have step: "ab_min_loop ai dl d nid (a # rest) v al be s =
        Inr (?v', ?b', trace_pruned (\<lambda>tr. d < trace_depth tr) nid rest (d + 1) al ?b' ?s3)"
      using True by (simp add: ab_min_loop.simps d tc c ud Let_def)
    have pure: "abt_min_loop ai dl d (map (play g) (a # rest)) v al be =
        (?v', fst (snd ?res), snd (snd ?res) + length rest)"
      using True by (simp add: split_beta Let_def)
    from trace_pruned_frame(3)[of "\<lambda>tr. d < trace_depth tr" nid rest "d + 1" al "?b'" ?s3]
    have "pruned_total (tracer (trace_pruned (\<lambda>tr. d < trace_depth tr) nid rest (d + 1) al ?b' ?s3))
           \<le> pruned_total (tracer s2) + length rest" by simp
    with p2 n2 show ?thesis
      unfolding step pure by (simp add: trace_pruned_frame)
  next
    case False
    have r3: "restored g (game ?s3)" by simp
    from Cons.IH[OF r3 rest, of ?v' al ?b'] obtain b' s' where
      l: "ab_min_loop ai dl d nid rest ?v' al ?b' ?s3 =
            Inr (fst (abt_min_loop ai dl d (map (play g) rest) ?v' al ?b'), b', s')" and
      r': "restored g (game s')" and
      n': "nodes_expanded (metrics s') = nodes_expanded (metrics ?s3) +
             fst (snd (abt_min_loop ai dl d (map (play g) rest) ?v' al ?b'))" and
      p': "pruned_total (tracer s') \<le> pruned_total (tracer ?s3) +
             snd (snd (abt_min_loop ai dl d (map (play g) rest) ?v' al ?b'))"
      by blast
    have step: "ab_min_loop ai dl d nid (a # rest) v al be s =
        ab_min_loop ai dl d nid rest ?v' al ?b' ?s3"
      using False by (simp add: ab_min_loop.simps d tc c ud Let_def)
    have pure: "abt_min_loop ai dl d (map (play g) (a # rest)) v al be =
        (fst (abt_min_loop ai dl d (map (play g) rest) ?v' al ?b'),
         fst (snd ?res) + fst (snd (abt_min_loop ai dl d (map (play g) rest) ?v' al ?b')),
         snd (snd ?res) + snd (snd (abt_min_loop ai dl d (map (play g) rest) ?v' al ?b')))"
      using False by (simp add: split_beta Let_def)
    show ?thesis
      unfolding step pure using l r' n' p' n2 p2 by simp
  qed
qed

lemma ab_value_link:
  "wf_game (game s) \<Longrightarrow>
   (\<exists>s'. ab_max_value ai dl d al be nid s = Inr (fst (abt_max ai dl d al be (game s)), s') \<and>
         state_after s s' (fst (snd (abt_max ai dl d al be (game s))))
           (snd (snd (abt_max ai dl d al be (game s))))) \<and>
   (\<exists>s'. ab_min_value ai dl d al be nid s = Inr (fst (abt_min ai dl d al be (game s)), s') \<and>
         state_after s s' (fst (snd (abt_min ai dl d al be (game s))))
           (snd (snd (abt_min ai dl d al be (game s)))))"
proof (induction "nat (dl - d)" arbitrary: d al be nid s rule: less_induct)
  case less
  note wf = less.prems
  have child: "\<And>nid s al be. wf_game (game s) \<Longrightarrow>
      \<exists>s'. ab_min_value ai dl (d + 1) al be nid s =
             Inr (fst (abt_min ai dl (d + 1) al be (game s)), s') \<and>
           state_after s s' (fst (snd (abt_min ai dl (d + 1) al be (game s))))
             (snd (snd (abt_min ai dl (d + 1) al be (game s))))"
    if "\<not> d \<ge> dl"
    using less.hyps[of "d + 1"] that by auto
  have child': "\<And>nid s al be. wf_game (game s) \<Longrightarrow>
      \<exists>s'. ab_max_value ai dl (d + 1) al be nid s =
             Inr (fst (abt_max ai dl (d + 1) al be (game s)), s') \<and>
           state_after s s' (fst (snd (abt_max ai dl (d + 1) al be (game s))))
             (snd (snd (abt_max ai dl (d + 1) al be (game s))))"
    if "\<not> d \<ge> dl"
    using less.hyps[of "d + 1"] that by auto

  have "\<exists>s'. ab_max_value ai dl d al be nid s = Inr (fst (abt_max ai dl d al be (game s)), s') \<and>
             state_after s s' (fst (snd (abt_max ai dl d al be (game s))))
               (snd (snd (abt_max ai dl d al be (game s))))"
  proof (cases "terminal (game s) \<or> d \<ge> dl")
    case True
    then show ?thesis
      by (auto simp: ab_max_value.simps abt_max.simps Let_def state_after_def)
  next
    case False
    then have nt: "\<not> terminal (game s)" and dlt: "\<not> d \<ge> dl" by simp_all
    have rr: "restored (game s) (game (enter_node d s))" by simp
    from ab_max_loop_link[where ai = ai and dl = dl and d = d and g = "game s"
        and s = "enter_node d s" and acts = "actions (game s)" and v = "- INF_VAL" and nid = nid
        and al = al and be = be, OF child[OF dlt] wf rr]
    obtain b' s' where
      l: "ab_max_loop ai dl d nid (actions (game s)) (- INF_VAL) al be (enter_node d s) =
            Inr (fst (abt_max_loop ai dl d (map (play (game s)) (actions (game s))) (- INF_VAL) al be), b', s')" and
      r': "restored (game s) (game s')" and
      n': "nodes_expanded (metrics s') = nodes_expanded (metrics (enter_node d s)) +
             fst (snd (abt_max_loop ai dl d (map (play (game s)) (actions (game s))) (- INF_VAL) al be))" and
      p': "pruned_total (tracer s') \<le> pruned_total (tracer (enter_node d s)) +
             snd (snd (abt_max_loop ai dl d (map (play (game s)) (actions (game s))) (- INF_VAL) al be))"
      by auto
    from nt dlt l r' n' p' show ?thesis
      by (simp add: ab_max_value.simps abt_max.simps Let_def state_after_def split_beta)
  qed
  moreover

  have "\<exists>s'. ab_min_value ai dl d al be nid s = Inr (fst (abt_min ai dl d al be (game s)), s') \<and>
             state_after s s' (fst (snd (abt_min ai dl d al be (game s))))
               (snd (snd (abt_min ai dl d al be (game s))))"
  proof (cases "terminal (game s) \<or> d \<ge> dl")
    case True
    then show ?thesis
      by (auto simp: ab_min_value.simps abt_min.simps Let_def state_after_def)
  next
    case False
    then have nt: "\<not> terminal (game s)" and dlt: "\<not> d \<ge> dl" by simp_all
    have rr: "restored (game s) (game (enter_node d s))" by simp
    from ab_min_loop_link[where ai = ai and dl = dl and d = d and g = "game s"
        and s = "enter_node d s" and acts = "actions (game s)" and v = "INF_VAL" and nid = nid
        and al = al and be = be, OF child'[OF dlt] wf rr]
    obtain b' s' where
      l: "ab_min_loop ai dl d nid (actions (game s)) (INF_VAL) al be (enter_node d s) =
            Inr (fst (abt_min_loop ai dl d (map (play (game s)) (actions (game s))) (INF_VAL) al be), b', s')" and
      r': "restored (game s) (game s')" and
      n': "nodes_expanded (metrics s') = nodes_expanded (metrics (enter_node d s)) +
             fst (snd (abt_min_loop ai dl d (map (play (game s)) (actions (game s))) (INF_VAL) al be))" and
      p': "pruned_total (tracer s') \<le> pruned_total (tracer (enter_node d s)) +
             snd (snd (abt_min_loop ai dl d (map (play (game s)) (actions (game s))) (INF_VAL) al be))"
      by auto
    from nt dlt l r' n' p' show ?thesis
      by (simp add: ab_min_value.simps abt_min.simps Let_def state_after_def split_beta)
  qed
  ultimately show ?case by blast
qed

subsection \<open>Alpha-beta against minimax on the tree\<close>

lemma mmt_nodes_pos: "1 \<le> snd (mmt_max ai dl d g)" "1 \<le> snd (mmt_min ai dl d g)"
  by (simp_all add: mmt_max.simps mmt_min.simps split_beta)

lemma mmt_max_loop_nodes: "length cs \<le> snd (mmt_max_loop ai dl d cs v)"
proof (induction cs arbitrary: v)
  case Nil
  show ?case by simp
next
  case (Cons c cs)
  from Cons.IH[of "if fst (mmt_min ai dl (d + 1) c) > v then fst (mmt_min ai dl (d + 1) c) else v"]
    mmt_nodes_pos(2)[of ai dl "d + 1" c]
  show ?case by (simp add: split_beta)
qed

lemma mmt_min_loop_nodes: "length cs \<le> snd (mmt_min_loop ai dl d cs v)"
proof (induction cs arbitrary: v)
  case Nil
  show ?case by simp
next
  case (Cons c cs)
  from Cons.IH[of "if fst (mmt_max ai dl (d + 1) c) < v then fst (mmt_max ai dl (d + 1) c) else v"]
    mmt_nodes_pos(1)[of ai dl "d + 1" c]
  show ?case by (simp add: split_beta)
qed

lemma mmt_max_loop_ge: "v \<le> fst (mmt_max_loop ai dl d cs v)"
proof (induction cs arbitrary: v)
  case Nil
  show ?case by simp
next
  case (Cons c cs)
  from Cons.IH[of "if fst (mmt_min ai dl (d + 1) c) > v then fst (mmt_min ai dl (d + 1) c) else v"]
  show ?case by (simp add: split_beta split: if_splits)
qed

lemma mmt_min_loop_le: "fst (mmt_min_loop ai dl d cs v) \<le> v"
proof (induction cs arbitrary: v)
  case Nil
  show ?case by simp
next
  case (Cons c cs)
  from Cons.IH[of "if fst (mmt_max ai dl (d + 1) c) < v then fst (mmt_max ai dl (d + 1) c) else v"]
  show ?case by (simp add: split_beta split: if_splits)
qed

lemma ab_max_loop_rel:
  assumes child: "\<And>al be c. - INF_VAL \<le> al \<Longrightarrow> al < be \<Longrightarrow> be \<le> INF_VAL \<Longrightarrow>
      ab_rel al be (fst (abt_min ai dl (d + 1) al be c)) (fst (mmt_min ai dl (d + 1) c)) \<and>
      fst (snd (abt_min ai dl (d + 1) al be c)) + snd (snd (abt_min ai dl (d + 1) al be c))
        \<le> snd (mmt_min ai dl (d + 1) c)"
  shows "- INF_VAL \<le> lo \<Longrightarrow> al < be \<Longrightarrow> be \<le> INF_VAL \<Longrightarrow> al = max lo va \<Longrightarrow>
         ab_rel lo be va vm \<Longrightarrow>
         ab_rel lo be (fst (abt_max_loop ai dl d cs va al be)) (fst (mmt_max_loop ai dl d cs vm)) \<and>
         fst (snd (abt_max_loop ai dl d cs va al be)) + snd (snd (abt_max_loop ai dl d cs va al be))
           \<le> snd (mmt_max_loop ai dl d cs vm)"
proof (induction cs arbitrary: va vm al)
  case Nil
  then show ?case by simp
next
  case (Cons c cs)
  let ?ca = "fst (abt_min ai dl (d + 1) al be c)"
  let ?cm = "fst (mmt_min ai dl (d + 1) c)"
  let ?va' = "if ?ca > va then ?ca else va"
  let ?vm' = "if ?cm > vm then ?cm else vm"
  let ?al' = "if ?va' > al then ?va' else al"
  from Cons.prems have al0: "- INF_VAL \<le> al" by simp
  from child[OF al0 Cons.prems(2) Cons.prems(3), of c] have
    cr: "ab_rel al be ?ca ?cm" and
    cn: "fst (snd (abt_min ai dl (d + 1) al be c)) + snd (snd (abt_min ai dl (d + 1) al be c))
           \<le> snd (mmt_min ai dl (d + 1) c)"
    by simp_all
  have mm: "mmt_max_loop ai dl d (c # cs) vm =
      (fst (mmt_max_loop ai dl d cs ?vm'), snd (mmt_min ai dl (d + 1) c) + snd (mmt_max_loop ai dl d cs ?vm'))"
    by (simp add: split_beta)
  show ?case
  proof (cases "?al' \<ge> be")
    case True
    have ab: "abt_max_loop ai dl d (c # cs) va al be =
        (?va', fst (snd (abt_min ai dl (d + 1) al be c)),
         snd (snd (abt_min ai dl (d + 1) al be c)) + length cs)"
      using True by (simp add: split_beta Let_def)
    from True Cons.prems cr have "be \<le> ?va'" "?va' \<le> ?vm'"
      by (auto simp: ab_rel_def split: if_splits)
    with mmt_max_loop_ge[of ?vm' ai dl d cs] Cons.prems
    have "ab_rel lo be ?va' (fst (mmt_max_loop ai dl d cs ?vm'))"
      by (auto simp: ab_rel_def)
    with cn mmt_max_loop_nodes[of cs ai dl d ?vm'] show ?thesis
      unfolding ab mm by simp
  next
    case False
    have ab: "abt_max_loop ai dl d (c # cs) va al be =
        (fst (abt_max_loop ai dl d cs ?va' ?al' be),
         fst (snd (abt_min ai dl (d + 1) al be c)) + fst (snd (abt_max_loop ai dl d cs ?va' ?al' be)),
         snd (snd (abt_min ai dl (d + 1) al be c)) + snd (snd (abt_max_loop ai dl d cs ?va' ?al' be)))"
      using False by (simp add: split_beta Let_def)
    from False have lt: "?al' < be" by simp
    from Cons.prems have eq: "?al' = max lo ?va'" by (auto simp: max_def)
    from False Cons.prems cr have rel: "ab_rel lo be ?va' ?vm'"
      by (auto simp: ab_rel_def max_def split: if_splits)
    from Cons.IH[OF Cons.prems(1) lt Cons.prems(3) eq rel] cn show ?thesis
      unfolding ab mm by simp
  qed
qed

lemma ab_min_loop_rel:
  assumes child: "\<And>al be c. - INF_VAL \<le> al \<Longrightarrow> al < be \<Longrightarrow> be \<le> INF_VAL \<Longrightarrow>
      ab_rel al be (fst (abt_max ai dl (d + 1) al be c)) (fst (mmt_max ai dl (d + 1) c)) \<and>
      fst (snd (abt_max ai dl (d + 1) al be c)) + snd (snd (abt_max ai dl (d + 1) al be c))
        \<le> snd (mmt_max ai dl (d + 1) c)"
  shows "hi \<le> INF_VAL \<Longrightarrow> al < be \<Longrightarrow> - INF_VAL \<le> al \<Longrightarrow> be = min hi va \<Longrightarrow>
         ab_rel al hi va vm \<Longrightarrow>
         ab_rel al hi (fst (abt_min_loop ai dl d cs va al be)) (fst (mmt_min_loop ai dl d cs vm)) \<and>
         fst (snd (abt_min_loop ai dl d cs va al be)) + snd (snd (abt_min_loop ai dl d cs va al be))
           \<le> snd (mmt_min_loop ai dl d cs vm)"
proof (induction cs arbitrary: va vm be)
  case Nil
  then show ?case by simp
next
  case (Cons c cs)
  let ?ca = "fst (abt_max ai dl (d + 1) al be c)"
  let ?cm = "fst (mmt_max ai dl (d + 1) c)"
  let ?va' = "if ?ca < va then ?ca else va"
  let ?vm' = "if ?cm < vm then ?cm else vm"
  let ?be' = "if ?va' < be then ?va' else be"
  from Cons.prems have be0: "be \<le> INF_VAL" by simp
  from child[OF Cons.prems(3) Cons.prems(2) be0, of c] have
    cr: "ab_rel al be ?ca ?cm" and
    cn: "fst (snd (abt_max ai dl (d + 1) al be c)) + snd (snd (abt_max ai dl (d + 1) al be c))
           \<le> snd (mmt_max ai dl (d + 1) c)"
    by simp_all
  have mm: "mmt_min_loop ai dl d (c # cs) vm =
      (fst (mmt_min_loop ai dl d cs ?vm'), snd (mmt_max ai dl (d + 1) c) + snd (mmt_min_loop ai dl d cs ?vm'))"
    by (simp add: split_beta)
  show ?case
  proof (cases "al \<ge> ?be'")
    case True
    have ab: "abt_min_loop ai dl d (c # cs) va al be =
        (?va', fst (snd (abt_max ai dl (d + 1) al be c)),
         snd (snd (abt_max ai dl (d + 1) al be c)) + length cs)"
      using True by (simp add: split_beta Let_def)
    from True Cons.prems cr have "?va' \<le> al" "?vm' \<le> ?va'"
      by (auto simp: ab_rel_def split: if_splits)
    with mmt_min_loop_le[of ai dl d cs ?vm'] Cons.prems
    have "ab_rel al hi ?va' (fst (mmt_min_loop ai dl d cs ?vm'))"
      by (auto simp: ab_rel_def)
    with cn mmt_min_loop_nodes[of cs ai dl d ?vm'] show ?thesis
      unfolding ab mm by simp
  next
    case False
    have ab: "abt_min_loop ai dl d (c # cs) va al be =
        (fst (abt_min_loop ai dl d cs ?va' al ?be'),
         fst (snd (abt_max ai dl (d + 1) al be c)) + fst (snd (abt_min_loop ai dl d cs ?va' al ?be')),
         snd (snd (abt_max ai dl (d + 1) al be c)) + snd (snd (abt_min_loop ai dl d cs ?va' al ?be')))"
      using False by (simp add: split_beta Let_def)
    from False have lt: "al < ?be'" by simp
    from Cons.prems have eq: "?be' = min hi ?va'" by (auto simp: min_def)
    from False Cons.prems cr have rel: "ab_rel al hi ?va' ?vm'"
      by (auto simp: ab_rel_def min_def split: if_splits)
    from Cons.IH[OF Cons.prems(1) lt Cons.prems(3) eq rel] cn show ?thesis
      unfolding ab mm by simp
  qed
qed

lemma ab_value_rel:
  "- INF_VAL \<le> al \<Longrightarrow> al < be \<Longrightarrow> be \<le> INF_VAL \<Longrightarrow>
   (ab_rel al be (fst (abt_max ai dl d al be g)) (fst (mmt_max ai dl d g)) \<and>
    fst (snd (abt_max ai dl d al be g)) + snd (snd (abt_max ai dl d al be g)) \<le> snd (mmt_max ai dl d g)) \<and>
   (ab_rel al be (fst (abt_min ai dl d al be g)) (fst (mmt_min ai dl d g)) \<and>
    fst (snd (abt_min ai dl d al be g)) + snd (snd (abt_min ai dl d al be g)) \<le> snd (mmt_min ai dl d g))"
proof (induction "nat (dl - d)" arbitrary: d al be g rule: less_induct)
  case less
  note b = less.prems
  show ?case
  proof (cases "terminal g \<or> d \<ge> dl")
    case True
    then show ?thesis
      by (auto simp: abt_max.simps abt_min.simps mmt_max.simps mmt_min.simps ab_rel_def)
  next
    case False
    then have nt: "\<not> terminal g" and dlt: "\<not> d \<ge> dl" by simp_all
    from dlt have m: "nat (dl - (d + 1)) < nat (dl - d)" by simp
    have cmin: "\<And>al be c. - INF_VAL \<le> al \<Longrightarrow> al < be \<Longrightarrow> be \<le> INF_VAL \<Longrightarrow>
      ab_rel al be (fst (abt_min ai dl (d + 1) al be c)) (fst (mmt_min ai dl (d + 1) c)) \<and>
      fst (snd (abt_min ai dl (d + 1) al be c)) + snd (snd (abt_min ai dl (d + 1) al be c))
        \<le> snd (mmt_min ai dl (d + 1) c)"
      using less.hyps[OF m] by blast
    have cmax: "\<And>al be c. - INF_VAL \<le> al \<Longrightarrow> al < be \<Longrightarrow> be \<le> INF_VAL \<Longrightarrow>
      ab_rel al be (fst (abt_max ai dl (d + 1) al be c)) (fst (mmt_max ai dl (d + 1) c)) \<and>
      fst (snd (abt_max ai dl (d + 1) al be c)) + snd (snd (abt_max ai dl (d + 1) al be c))
        \<le> snd (mmt_max ai dl (d + 1) c)"
      using less.hyps[OF m] by blast
    let ?cs = "map (play g) (actions g)"
    have e1: "al = max al (- INF_VAL)" using b by simp
    have r1: "ab_rel al be (- INF_VAL) (- INF_VAL)" by (simp add: ab_rel_def)
    from ab_max_loop_rel[where ai = ai and dl = dl and d = d and cs = ?cs and lo = al
        and al = al and be = be and va = "- INF_VAL" and vm = "- INF_VAL",
        OF cmin b(1) b(2) b(3) e1 r1]
    have mx: "ab_rel al be (fst (abt_max ai dl d al be g)) (fst (mmt_max ai dl d g)) \<and>
      fst (snd (abt_max ai dl d al be g)) + snd (snd (abt_max ai dl d al be g)) \<le> snd (mmt_max ai dl d g)"
      using nt dlt by (simp add: abt_max.simps mmt_max.simps split_beta)
    have e2: "be = min be INF_VAL" using b by simp
    have r2: "ab_rel al be INF_VAL INF_VAL" by (simp add: ab_rel_def)
    from ab_min_loop_rel[where ai = ai and dl = dl and d = d and cs = ?cs and hi = be
        and al = al and be = be and va = "INF_VAL" and vm = "INF_VAL",
        OF cmax b(3) b(2) b(1) e2 r2]
    have mn: "ab_rel al be (fst (abt_min ai dl d al be g)) (fst (mmt_min ai dl d g)) \<and>
      fst (snd (abt_min ai dl d al be g)) + snd (snd (abt_min ai dl d al be g)) \<le> snd (mmt_min ai dl d g)"
      using nt dlt by (simp add: abt_min.simps mmt_min.simps split_beta)
    from mx mn show ?thesis by blast
  qed
qed

subsection \<open>The root loops\<close>
lemma mm_root_max_loop_link:
  assumes wf: "wf_game g"
  shows "restored g (game s) \<Longrightarrow> set acts \<subseteq> set (actions g) \<Longrightarrow>
     \<exists>s'. mm_root_max_loop ai dl rid acts bv bm s =
             Inr (fst (mmt_root_max ai dl g acts bv bm), fst (snd (mmt_root_max ai dl g acts bv bm)), s') \<and>
          restored g (game s') \<and> (acts = [] \<or> game s' = g \<lparr> last_move := None \<rparr>) \<and>
          nodes_expanded (metrics s') =
            nodes_expanded (metrics s) + snd (snd (mmt_root_max ai dl g acts bv bm)) \<and>
          pruned_total (tracer s') \<le> pruned_total (tracer s)"
proof (induction acts arbitrary: bv bm s)
  case Nil
  then show ?case by simp
next
  case (Cons a rest)
  from Cons.prems(2) have a: "a \<in> set (actions g)" and rest: "set rest \<subseteq> set (actions g)"
    by simp_all
  from play_and_undo[OF wf Cons.prems(1) a] obtain mv where
    d: "drop_disc (game s) a None = (Inr mv, play g a)" and wf1: "wf_game (play g a)" and
    u: "\<And>g2. restored (play g a) g2 \<Longrightarrow> undo_disc g2 mv = (Inr (), g \<lparr> last_move := None \<rparr>)"
    by blast
  obtain cid s1 where tc: "trace_child (\<lambda>tr. trace_depth tr \<ge> 1) ai rid a 1 None None
      (s \<lparr> game := play g a \<rparr>) = (cid, s1)"
    by (cases "trace_child (\<lambda>tr. trace_depth tr \<ge> 1) ai rid a 1 None None (s \<lparr> game := play g a \<rparr>)")
  from trace_child_frame[OF tc] have f1: "game s1 = play g a" "metrics s1 = metrics s"
    "pruned_total (tracer s1) = pruned_total (tracer s)" by simp_all
  from mm_value_link[of s1 ai dl 1 cid] wf1 f1(1) obtain s2 where
    c: "mm_min_value ai dl 1 cid s1 = Inr (fst (mmt_min ai dl 1 (play g a)), s2)" and
    sa: "state_after s1 s2 (snd (mmt_min ai dl 1 (play g a))) 0"
    by auto
  from sa f1 have r2: "restored (play g a) (game s2)"
    and n2: "nodes_expanded (metrics s2) = nodes_expanded (metrics s) + snd (mmt_min ai dl 1 (play g a))"
    and p2: "pruned_total (tracer s2) \<le> pruned_total (tracer s)"
    by (simp_all add: state_after_def)
  from u[OF r2] have ud: "undo_disc (game s2) mv = (Inr (), g \<lparr> last_move := None \<rparr>)" .
  let ?val = "fst (mmt_min ai dl 1 (play g a))"
  let ?bv' = "if ?val > bv then ?val else bv"
  let ?bm' = "if ?val > bv then Some a else bm"
  let ?s3 = "s2 \<lparr> game := g \<lparr> last_move := None \<rparr> \<rparr>"
  have r3: "restored g (game ?s3)" by simp
  from Cons.IH[OF r3 rest, of ?bv' ?bm'] obtain s' where
    l: "mm_root_max_loop ai dl rid rest ?bv' ?bm' ?s3 =
          Inr (fst (mmt_root_max ai dl g rest ?bv' ?bm'), fst (snd (mmt_root_max ai dl g rest ?bv' ?bm')), s')" and
    r': "restored g (game s')" and
    e': "rest = [] \<or> game s' = g \<lparr> last_move := None \<rparr>" and
    n': "nodes_expanded (metrics s') =
           nodes_expanded (metrics ?s3) + snd (snd (mmt_root_max ai dl g rest ?bv' ?bm'))" and
    p': "pruned_total (tracer s') \<le> pruned_total (tracer ?s3)"
    by blast
  have g': "game s' = g \<lparr> last_move := None \<rparr>"
  proof (cases rest)
    case Nil
    with l show ?thesis by auto
  next
    case (Cons x xs)
    with e' show ?thesis by simp
  qed
  have step: "mm_root_max_loop ai dl rid (a # rest) bv bm s = mm_root_max_loop ai dl rid rest ?bv' ?bm' ?s3"
    by (simp add: d tc c ud)
  have pure: "mmt_root_max ai dl g (a # rest) bv bm =
      (fst (mmt_root_max ai dl g rest ?bv' ?bm'), fst (snd (mmt_root_max ai dl g rest ?bv' ?bm')),
       snd (mmt_min ai dl 1 (play g a)) + snd (snd (mmt_root_max ai dl g rest ?bv' ?bm')))"
    by (simp add: split_beta)
  show ?case
    unfolding step pure using l r' g' n' p' n2 p2 by simp
qed

lemma mm_root_min_loop_link:
  assumes wf: "wf_game g"
  shows "restored g (game s) \<Longrightarrow> set acts \<subseteq> set (actions g) \<Longrightarrow>
     \<exists>s'. mm_root_min_loop ai dl rid acts bv bm s =
             Inr (fst (mmt_root_min ai dl g acts bv bm), fst (snd (mmt_root_min ai dl g acts bv bm)), s') \<and>
          restored g (game s') \<and> (acts = [] \<or> game s' = g \<lparr> last_move := None \<rparr>) \<and>
          nodes_expanded (metrics s') =
            nodes_expanded (metrics s) + snd (snd (mmt_root_min ai dl g acts bv bm)) \<and>
          pruned_total (tracer s') \<le> pruned_total (tracer s)"
proof (induction acts arbitrary: bv bm s)
  case Nil
  then show ?case by simp
next
  case (Cons a rest)
  from Cons.prems(2) have a: "a \<in> set (actions g)" and rest: "set rest \<subseteq> set (actions g)"
    by simp_all
  from play_and_undo[OF wf Cons.prems(1) a] obtain mv where
    d: "drop_disc (game s) a None = (Inr mv, play g a)" and wf1: "wf_game (play g a)" and
    u: "\<And>g2. restored (play g a) g2 \<Longrightarrow> undo_disc g2 mv = (Inr (), g \<lparr> last_move := None \<rparr>)"
    by blast
  obtain cid s1 where tc: "trace_child (\<lambda>tr. trace_depth tr \<ge> 1) ai rid a 1 None None
      (s \<lparr> game := play g a \<rparr>) = (cid, s1)"
    by (cases "trace_child (\<lambda>tr. trace_depth tr \<ge> 1) ai rid a 1 None None (s \<lparr> game := play g a \<rparr>)")
  from trace_child_frame[OF tc] have f1: "game s1 = play g a" "metrics s1 = metrics s"
    "pruned_total (tracer s1) = pruned_total (tracer s)" by simp_all
  from mm_value_link[of s1 ai dl 1 cid] wf1 f1(1) obtain s2 where
    c: "mm_max_value ai dl 1 cid s1 = Inr (fst (mmt_max ai dl 1 (play g a)), s2)" and
    sa: "state_after s1 s2 (snd (mmt_max ai dl 1 (play g a))) 0"
    by auto
  from sa f1 have r2: "restored (play g a) (game s2)"
    and n2: "nodes_expanded (metrics s2) = nodes_expanded (metrics s) + snd (mmt_max ai dl 1 (play g a))"
    and p2: "pruned_total (tracer s2) \<le> pruned_total (tracer s)"
    by (simp_all add: state_after_def)
  from u[OF r2] have ud: "undo_disc (game s2) mv = (Inr (), g \<lparr> last_move := None \<rparr>)" .
  let ?val = "fst (mmt_max ai dl 1 (play g a))"
  let ?bv' = "if ?val < bv then ?val else bv"
  let ?bm' = "if ?val < bv then Some a else bm"
  let ?s3 = "s2 \<lparr> game := g \<lparr> last_move := None \<rparr> \<rparr>"
  have r3: "restored g (game ?s3)" by simp
  from Cons.IH[OF r3 rest, of ?bv' ?bm'] obtain s' where
    l: "mm_root_min_loop ai dl rid rest ?bv' ?bm' ?s3 =
          Inr (fst (mmt_root_min ai dl g rest ?bv' ?bm'), fst (snd (mmt_root_min ai dl g rest ?bv' ?bm')), s')" and
    r': "restored g (game s')" and
    e': "rest = [] \<or> game s' = g \<lparr> last_move := None \<rparr>" and
    n': "nodes_expanded (metrics s') =
           nodes_expanded (metrics ?s3) + snd (snd (mmt_root_min ai dl g rest ?bv' ?bm'))" and
    p': "pruned_total (tracer s') \<le> pruned_total (tracer ?s3)"
    by blast
  have g': "game s' = g \<lparr> last_move := None \<rparr>"
  proof (cases rest)
    case Nil
    with l show ?thesis by auto
  next
    case (Cons x xs)
    with e' show ?thesis by simp
  qed
  have step: "mm_root_min_loop ai dl rid (a # rest) bv bm s = mm_root_min_loop ai dl rid rest ?bv' ?bm' ?s3"
    by (simp add: d tc c ud)
  have pure: "mmt_root_min ai dl g (a # rest) bv bm =
      (fst (mmt_root_min ai dl g rest ?bv' ?bm'), fst (snd (mmt_root_min ai dl g rest ?bv' ?bm')),
       snd (mmt_max ai dl 1 (play g a)) + snd (snd (mmt_root_min ai dl g rest ?bv' ?bm')))"
    by (simp add: split_beta)
  show ?case
    unfolding step pure using l r' g' n' p' n2 p2 by simp
qed

lemma ab_root_max_loop_link:
  assumes wf: "wf_game g"
  shows "restored g (game s) \<Longrightarrow> set acts \<subseteq> set (actions g) \<Longrightarrow>
     \<exists>b' s'. ab_root_max_loop ai dl rid acts bv bm al be s =
             Inr (fst (abt_root_max ai dl g acts bv bm al be), fst (snd (abt_root_max ai dl g acts bv bm al be)), b', s') \<and>
          restored g (game s') \<and> (acts = [] \<or> game s' = g \<lparr> last_move := None \<rparr>) \<and>
          nodes_expanded (metrics s') = nodes_expanded (metrics s) + fst (snd (snd (abt_root_max ai dl g acts bv bm al be))) \<and>
          pruned_total (tracer s') \<le> pruned_total (tracer s) + snd (snd (snd (abt_root_max ai dl g acts bv bm al be)))"
proof (induction acts arbitrary: bv bm al be s)
  case Nil
  then show ?case by simp
next
  case (Cons a rest)
  from Cons.prems(2) have a: "a \<in> set (actions g)" and rest: "set rest \<subseteq> set (actions g)"
    by simp_all
  from play_and_undo[OF wf Cons.prems(1) a] obtain mv where
    d: "drop_disc (game s) a None = (Inr mv, play g a)" and wf1: "wf_game (play g a)" and
    u: "\<And>g2. restored (play g a) g2 \<Longrightarrow> undo_disc g2 mv = (Inr (), g \<lparr> last_move := None \<rparr>)"
    by blast
  obtain cid s1 where tc: "trace_child (\<lambda>tr. trace_depth tr \<ge> 1) ai rid a 1 (Some al) (Some be)
      (s \<lparr> game := play g a \<rparr>) = (cid, s1)"
    by (cases "trace_child (\<lambda>tr. trace_depth tr \<ge> 1) ai rid a 1 (Some al) (Some be)
      (s \<lparr> game := play g a \<rparr>)")
  from trace_child_frame[OF tc] have f1: "game s1 = play g a" "metrics s1 = metrics s"
    "pruned_total (tracer s1) = pruned_total (tracer s)" by simp_all
  let ?res = "abt_min ai dl 1 al be (play g a)"
  from ab_value_link[of s1 ai dl 1 al be cid] wf1 f1(1) obtain s2 where
    c: "ab_min_value ai dl 1 al be cid s1 = Inr (fst ?res, s2)" and
    sa: "state_after s1 s2 (fst (snd ?res)) (snd (snd ?res))"
    by auto
  from sa f1 have r2: "restored (play g a) (game s2)"
    and n2: "nodes_expanded (metrics s2) = nodes_expanded (metrics s) + fst (snd ?res)"
    and p2: "pruned_total (tracer s2) \<le> pruned_total (tracer s) + snd (snd ?res)"
    by (simp_all add: state_after_def)
  from u[OF r2] have ud: "undo_disc (game s2) mv = (Inr (), g \<lparr> last_move := None \<rparr>)" .
  let ?val = "fst ?res"
  let ?bv' = "if ?val > bv then ?val else bv"
  let ?bm' = "if ?val > bv then Some a else bm"
  let ?b' = "if ?bv' > al then ?bv' else al"
  let ?s3 = "s2 \<lparr> game := g \<lparr> last_move := None \<rparr> \<rparr>"
  show ?case
  proof (cases "?b' \<ge> be")
    case True
    have step: "ab_root_max_loop ai dl rid (a # rest) bv bm al be s =
        Inr (?bv', ?bm', ?b', trace_pruned (\<lambda>tr. trace_depth tr \<ge> 1) rid rest 1 ?b' be ?s3)"
      using True by (simp add: d tc c ud Let_def)
    have pure: "abt_root_max ai dl g (a # rest) bv bm al be =
        (?bv', ?bm', fst (snd ?res), snd (snd ?res) + length rest)"
      using True by (simp add: split_beta Let_def)
    from trace_pruned_frame(3)[of "\<lambda>tr. trace_depth tr \<ge> 1" rid rest 1 "?b'" be ?s3]
    have "pruned_total (tracer (trace_pruned (\<lambda>tr. trace_depth tr \<ge> 1) rid rest 1 ?b' be ?s3))
           \<le> pruned_total (tracer s2) + length rest" by simp
    with p2 n2 show ?thesis
      unfolding step pure by (simp add: trace_pruned_frame)
  next
    case False
    have r3: "restored g (game ?s3)" by simp
    from Cons.IH[OF r3 rest, of ?bv' ?bm' ?b' be] obtain b' s' where
      l: "ab_root_max_loop ai dl rid rest ?bv' ?bm' ?b' be ?s3 =
            Inr (fst (abt_root_max ai dl g rest ?bv' ?bm' ?b' be), fst (snd (abt_root_max ai dl g rest ?bv' ?bm' ?b' be)), b', s')" and
      r': "restored g (game s')" and
      e': "rest = [] \<or> game s' = g \<lparr> last_move := None \<rparr>" and
      n': "nodes_expanded (metrics s') = nodes_expanded (metrics ?s3) +
             fst (snd (snd (abt_root_max ai dl g rest ?bv' ?bm' ?b' be)))" and
      p': "pruned_total (tracer s') \<le> pruned_total (tracer ?s3) +
             snd (snd (snd (abt_root_max ai dl g rest ?bv' ?bm' ?b' be)))"
      by blast
    have g': "game s' = g \<lparr> last_move := None \<rparr>"
    proof (cases rest)
      case Nil
      with l show ?thesis by auto
    next
      case (Cons x xs)
      with e' show ?thesis by simp
    qed
    have step: "ab_root_max_loop ai dl rid (a # rest) bv bm al be s =
        ab_root_max_loop ai dl rid rest ?bv' ?bm' ?b' be ?s3"
      using False by (simp add: d tc c ud Let_def)
    have pure: "abt_root_max ai dl g (a # rest) bv bm al be =
        (fst (abt_root_max ai dl g rest ?bv' ?bm' ?b' be), fst (snd (abt_root_max ai dl g rest ?bv' ?bm' ?b' be)),
         fst (snd ?res) + fst (snd (snd (abt_root_max ai dl g rest ?bv' ?bm' ?b' be))),
         snd (snd ?res) + snd (snd (snd (abt_root_max ai dl g rest ?bv' ?bm' ?b' be))))"
      using False by (simp add: split_beta Let_def)
    show ?thesis
      unfolding step pure using l r' g' n' p' n2 p2 by simp
  qed
qed

lemma ab_root_min_loop_link:
  assumes wf: "wf_game g"
  shows "restored g (game s) \<Longrightarrow> set acts \<subseteq> set (actions g) \<Longrightarrow>
     \<exists>b' s'. ab_root_min_loop ai dl rid acts bv bm al be s =
             Inr (fst (abt_root_min ai dl g acts bv bm al be), fst (snd (abt_root_min ai dl g acts bv bm al be)), b', s') \<and>
          restored g (game s') \<and> (acts = [] \<or> game s' = g \<lparr> last_move := None \<rparr>) \<and>
          nodes_expanded (metrics s') = nodes_expanded (metrics s) + fst (snd (snd (abt_root_min ai dl g acts bv bm al be))) \<and>
          pruned_total (tracer s') \<le> pruned_total (tracer s) + snd (snd (snd (abt_root_min ai dl g acts bv bm al be)))"
proof (induction acts arbitrary: bv bm al be s)
  case Nil
  then show ?case by simp
next
  case (Cons a rest)
  from Cons.prems(2) have a: "a \<in> set (actions g)" and rest: "set rest \<subseteq> set (actions g)"
    by simp_all
  from play_and_undo[OF wf Cons.prems(1) a] obtain mv where
    d: "drop_disc (game s) a None = (Inr mv, play g a)" and wf1: "wf_game (play g a)" and
    u: "\<And>g2. restored (play g a) g2 \<Longrightarrow> undo_disc g2 mv = (Inr (), g \<lparr> last_move := None \<rparr>)"
    by blast
  obtain cid s1 where tc: "trace_child (\<lambda>tr. trace_depth tr \<ge> 1) ai rid a 1 (Some al) (Some be)
      (s \<lparr> game := play g a \<rparr>) = (cid, s1)"
    by (cases "trace_child (\<lambda>tr. trace_depth tr \<ge> 1) ai rid a 1 (Some al) (Some be)
      (s \<lparr> game := play g a \<rparr>)")
  from trace_child_frame[OF tc] have f1: "game s1 = play g a" "metrics s1 = metrics s"
    "pruned_total (tracer s1) = pruned_total (tracer s)" by simp_all
  let ?res = "abt_max ai dl 1 al be (play g a)"
  from ab_value_link[of s1 ai dl 1 al be cid] wf1 f1(1) obtain s2 where
    c: "ab_max_value ai dl 1 al be cid s1 = Inr (fst ?res, s2)" and
    sa: "state_after s1 s2 (fst (snd ?res)) (snd (snd ?res))"
    by auto
  from sa f1 have r2: "restored (play g a) (game s2)"
    and n2: "nodes_expanded (metrics s2) = nodes_expanded (metrics s) + fst (snd ?res)"
    and p2: "pruned_total (tracer s2) \<le> pruned_total (tracer s) + snd (snd ?res)"
    by (simp_all add: state_after_def)
  from u[OF r2] have ud: "undo_disc (game s2) mv = (Inr (), g \<lparr> last_move := None \<rparr>)" .
  let ?val = "fst ?res"
  let ?bv' = "if ?val < bv then ?val else bv"
  let ?bm' = "if ?val < bv then Some a else bm"
  let ?b' = "if ?bv' < be then ?bv' else be"
  let ?s3 = "s2 \<lparr> game := g \<lparr> last_move := None \<rparr> \<rparr>"
  show ?case
  proof (cases "al \<ge> ?b'")
    case True
    have step: "ab_root_min_loop ai dl rid (a # rest) bv bm al be s =
        Inr (?bv', ?bm', ?b', trace_pruned (\<lambda>tr. trace_depth tr \<ge> 1) rid rest 1 al ?b' ?s3)"
      using True by (simp add: d tc c ud Let_def)
    have pure: "abt_root_min ai dl g (a # rest) bv bm al be =
        (?bv', ?bm', fst (snd ?res), snd (snd ?res) + length rest)"
      using True by (simp add: split_beta Let_def)
    from trace_pruned_frame(3)[of "\<lambda>tr. trace_depth tr \<ge> 1" rid rest 1 al "?b'" ?s3]
    have "pruned_total (tracer (trace_pruned (\<lambda>tr. trace_depth tr \<ge> 1) rid rest 1 al ?b' ?s3))
           \<le> pruned_total (tracer s2) + length rest" by simp
    with p2 n2 show ?thesis
      unfolding step pure by (simp add: trace_pruned_frame)
  next
    case False
    have r3: "restored g (game ?s3)" by simp
    from Cons.IH[OF r3 rest, of ?bv' ?bm' al ?b'] obtain b' s' where
      l: "ab_root_min_loop ai dl rid rest ?bv' ?bm' al ?b' ?s3 =
            Inr (fst (abt_root_min ai dl g rest ?bv' ?bm' al ?b'), fst (snd (abt_root_min ai dl g rest ?bv' ?bm' al ?b')), b', s')" and
      r': "restored g (game s')" and
      e': "rest = [] \<or> game s' = g \<lparr> last_move := None \<rparr>" and
      n': "nodes_expanded (metrics s') = nodes_expanded (metrics ?s3) +
             fst (snd (snd (abt_root_min ai dl g rest ?bv' ?bm' al ?b')))" and
      p': "pruned_total (tracer s') \<le> pruned_total (tracer ?s3) +
             snd (snd (snd (abt_root_min ai dl g rest ?bv' ?bm' al ?b')))"
      by blast
    have g': "game s' = g \<lparr> last_move := None \<rparr>"
    proof (cases rest)
      case Nil
      with l show ?thesis by auto
    next
      case (Cons x xs)
      with e' show ?thesis by simp
    qed
    have step: "ab_root_min_loop ai dl rid (a # rest) bv bm al be s =
        ab_root_min_loop ai dl rid rest ?bv' ?bm' al ?b' ?s3"
      using False by (simp add: d tc c ud Let_def)
    have pure: "abt_root_min ai dl g (a # rest) bv bm al be =
        (fst (abt_root_min ai dl g rest ?bv' ?bm' al ?b'), fst (snd (abt_root_min ai dl g rest ?bv' ?bm' al ?b')),
         fst (snd ?res) + fst (snd (snd (abt_root_min ai dl g rest ?bv' ?bm' al ?b'))),
         snd (snd ?res) + snd (snd (snd (abt_root_min ai dl g rest ?bv' ?bm' al ?b'))))"
      using False by (simp add: split_beta Let_def)
    show ?thesis
      unfolding step pure using l r' g' n' p' n2 p2 by simp
  qed
qed

lemma minimax_search_link:
  assumes wf: "wf_game g"
  shows "\<exists>s'. minimax_search g ai dl t =
           Inr (fst (snd (mmt_search g ai dl)), fst (mmt_search g ai dl), s') \<and>
         restored g (game s') \<and> (actions g = [] \<or> game s' = g \<lparr> last_move := None \<rparr>) \<and>
         nodes_expanded (metrics s') = snd (snd (mmt_search g ai dl)) \<and>
         pruned_total (tracer s') \<le> pruned_total t"
proof -
  let ?s0 = "\<lparr> game = g, metrics = \<lparr> nodes_expanded = 0, max_depth_reached = 0 \<rparr>, tracer = t \<rparr>"
  obtain rid s1 where tr: "trace_root ai None None ?s0 = (rid, s1)"
    by (cases "trace_root ai None None ?s0")
  from trace_root_frame[OF tr] have f: "game s1 = g" "nodes_expanded (metrics s1) = 0"
    "pruned_total (tracer s1) = pruned_total t" by simp_all
  have r: "restored g (game s1)" using f by simp
  have sub: "set (actions g) \<subseteq> set (actions g)" by simp
  show ?thesis
  proof (cases "current_player g = ai")
    case True
    from mm_root_max_loop_link[OF wf r sub, of ai dl rid "- INF_VAL" None] obtain s' where
      "mm_root_max_loop ai dl rid (actions g) (- INF_VAL) None s1 =
         Inr (fst (mmt_root_max ai dl g (actions g) (- INF_VAL) None),
              fst (snd (mmt_root_max ai dl g (actions g) (- INF_VAL) None)), s')"
      "restored g (game s')" "actions g = [] \<or> game s' = g \<lparr> last_move := None \<rparr>"
      "nodes_expanded (metrics s') = nodes_expanded (metrics s1) +
         snd (snd (mmt_root_max ai dl g (actions g) (- INF_VAL) None))"
      "pruned_total (tracer s') \<le> pruned_total (tracer s1)"
      by blast
    with True f show ?thesis
      by (simp add: minimax_search_def mmt_search_def tr)
  next
    case False
    from mm_root_min_loop_link[OF wf r sub, of ai dl rid "INF_VAL" None] obtain s' where
      "mm_root_min_loop ai dl rid (actions g) INF_VAL None s1 =
         Inr (fst (mmt_root_min ai dl g (actions g) INF_VAL None),
              fst (snd (mmt_root_min ai dl g (actions g) INF_VAL None)), s')"
      "restored g (game s')" "actions g = [] \<or> game s' = g \<lparr> last_move := None \<rparr>"
      "nodes_expanded (metrics s') = nodes_expanded (metrics s1) +
         snd (snd (mmt_root_min ai dl g (actions g) INF_VAL None))"
      "pruned_total (tracer s') \<le> pruned_total (tracer s1)"
      by blast
    with False f show ?thesis
      by (simp add: minimax_search_def mmt_search_def tr)
  qed
qed

lemma alphabeta_search_link:
  assumes wf: "wf_game g"
  shows "\<exists>s'. alphabeta_search g ai dl t =
           Inr (fst (snd (abt_search g ai dl)), fst (abt_search g ai dl), s') \<and>
         restored g (game s') \<and> (actions g = [] \<or> game s' = g \<lparr> last_move := None \<rparr>) \<and>
         nodes_expanded (metrics s') = fst (snd (snd (abt_search g ai dl))) \<and>
         pruned_total (tracer s') \<le> pruned_total t + snd (snd (snd (abt_search g ai dl)))"
proof -
  let ?s0 = "\<lparr> game = g, metrics = \<lparr> nodes_expanded = 0, max_depth_reached = 0 \<rparr>, tracer = t \<rparr>"
  obtain rid s1 where tr: "trace_root ai (Some (- INF_VAL)) (Some INF_VAL) ?s0 = (rid, s1)"
    by (cases "trace_root ai (Some (- INF_VAL)) (Some INF_VAL) ?s0")
  from trace_root_frame[OF tr] have f: "game s1 = g" "nodes_expanded (metrics s1) = 0"
    "pruned_total (tracer s1) = pruned_total t" by simp_all
  have r: "restored g (game s1)" using f by simp
  have sub: "set (actions g) \<subseteq> set (actions g)" by simp
  show ?thesis
  proof (cases "current_player g = ai")
    case True
    let ?R = "abt_root_max ai dl g (actions g) (- INF_VAL) None (- INF_VAL) INF_VAL"
    from ab_root_max_loop_link[OF wf r sub, of ai dl rid "- INF_VAL" None "- INF_VAL" INF_VAL]
    obtain b' s' where
      "ab_root_max_loop ai dl rid (actions g) (- INF_VAL) None (- INF_VAL) INF_VAL s1 =
         Inr (fst ?R, fst (snd ?R), b', s')"
      "restored g (game s')" "actions g = [] \<or> game s' = g \<lparr> last_move := None \<rparr>"
      "nodes_expanded (metrics s') = nodes_expanded (metrics s1) + fst (snd (snd ?R))"
      "pruned_total (tracer s') \<le> pruned_total (tracer s1) + snd (snd (snd ?R))"
      by blast
    with True f show ?thesis
      by (simp add: alphabeta_search_def abt_search_def tr)
  next
    case False
    let ?R = "abt_root_min ai dl g (actions g) INF_VAL None (- INF_VAL) INF_VAL"
    from ab_root_min_loop_link[OF wf r sub, of ai dl rid "INF_VAL" None "- INF_VAL" INF_VAL]
    obtain b' s' where
      "ab_root_min_loop ai dl rid (actions g) INF_VAL None (- INF_VAL) INF_VAL s1 =
         Inr (fst ?R, fst (snd ?R), b', s')"
      "restored g (game s')" "actions g = [] \<or> game s' = g \<lparr> last_move := None \<rparr>"
      "nodes_expanded (metrics s') = nodes_expanded (metrics s1) + fst (snd (snd ?R))"
      "pruned_total (tracer s') \<le> pruned_total (tracer s1) + snd (snd (snd ?R))"
      by blast
    with False f show ?thesis
      by (simp add: alphabeta_search_def abt_search_def tr)
  qed
qed

lemma mmt_root_max_nodes: "length acts \<le> snd (snd (mmt_root_max ai dl g acts bv bm))"
proof (induction acts arbitrary: bv bm)
  case Nil
  show ?case by simp
next
  case (Cons a rest)
  from Cons.IH[of "fst (mmt_min ai dl 1 (play g a))" "Some a"] Cons.IH[of bv bm]
    mmt_nodes_pos(2)[of ai dl 1 "play g a"]
  show ?case by (simp add: split_beta)
qed

lemma mmt_root_min_nodes: "length acts \<le> snd (snd (mmt_root_min ai dl g acts bv bm))"
proof (induction acts arbitrary: bv bm)
  case Nil
  show ?case by simp
next
  case (Cons a rest)
  from Cons.IH[of "fst (mmt_max ai dl 1 (play g a))" "Some a"] Cons.IH[of bv bm]
    mmt_nodes_pos(1)[of ai dl 1 "play g a"]
  show ?case by (simp add: split_beta)
qed

lemma root_max_counts:
  "- INF_VAL \<le> al \<Longrightarrow> al < be \<Longrightarrow> be \<le> INF_VAL \<Longrightarrow>
   fst (snd (snd (abt_root_max ai dl g acts bva bma al be))) +
   snd (snd (snd (abt_root_max ai dl g acts bva bma al be)))
     \<le> snd (snd (mmt_root_max ai dl g acts bvm bmm))"
proof (induction acts arbitrary: bva bma al bvm bmm)
  case Nil
  show ?case by simp
next
  case (Cons a rest)
  let ?res = "abt_min ai dl 1 al be (play g a)"
  let ?bv' = "if fst ?res > bva then fst ?res else bva"
  let ?bm' = "if fst ?res > bva then Some a else bma"
  let ?al' = "if ?bv' > al then ?bv' else al"
  from ab_value_rel[OF Cons.prems, of ai dl 1 "play g a"]
  have cn: "fst (snd ?res) + snd (snd ?res) \<le> snd (mmt_min ai dl 1 (play g a))" by simp
  have mm: "snd (snd (mmt_root_max ai dl g (a # rest) bvm bmm)) =
      snd (mmt_min ai dl 1 (play g a)) +
      snd (snd (if fst (mmt_min ai dl 1 (play g a)) > bvm
                then mmt_root_max ai dl g rest (fst (mmt_min ai dl 1 (play g a))) (Some a)
                else mmt_root_max ai dl g rest bvm bmm))"
    by (simp add: split_beta)
  show ?case
  proof (cases "?al' \<ge> be")
    case True
    have ab: "abt_root_max ai dl g (a # rest) bva bma al be =
        (?bv', ?bm', fst (snd ?res), snd (snd ?res) + length rest)"
      using True by (simp add: split_beta Let_def)
    from cn mmt_root_max_nodes[of rest ai dl g "fst (mmt_min ai dl 1 (play g a))" "Some a"]
      mmt_root_max_nodes[of rest ai dl g bvm bmm] show ?thesis
      unfolding ab mm by auto
  next
    case False
    have ab: "abt_root_max ai dl g (a # rest) bva bma al be =
        (fst (abt_root_max ai dl g rest ?bv' ?bm' ?al' be),
         fst (snd (abt_root_max ai dl g rest ?bv' ?bm' ?al' be)),
         fst (snd ?res) + fst (snd (snd (abt_root_max ai dl g rest ?bv' ?bm' ?al' be))),
         snd (snd ?res) + snd (snd (snd (abt_root_max ai dl g rest ?bv' ?bm' ?al' be))))"
      using False by (simp add: split_beta Let_def)
    from False have lt: "?al' < be" by simp
    from Cons.prems have lo: "- INF_VAL \<le> ?al'" by simp
    from Cons.IH[OF lo lt Cons.prems(3), of ?bv' ?bm' "fst (mmt_min ai dl 1 (play g a))" "Some a"]
      Cons.IH[OF lo lt Cons.prems(3), of ?bv' ?bm' bvm bmm] cn show ?thesis
      unfolding ab mm by auto
  qed
qed

lemma root_min_counts:
  "- INF_VAL \<le> al \<Longrightarrow> al < be \<Longrightarrow> be \<le> INF_VAL \<Longrightarrow>
   fst (snd (snd (abt_root_min ai dl g acts bva bma al be))) +
   snd (snd (snd (abt_root_min ai dl g acts bva bma al be)))
     \<le> snd (snd (mmt_root_min ai dl g acts bvm bmm))"
proof (induction acts arbitrary: bva bma be bvm bmm)
  case Nil
  show ?case by simp
next
  case (Cons a rest)
  let ?res = "abt_max ai dl 1 al be (play g a)"
  let ?bv' = "if fst ?res < bva then fst ?res else bva"
  let ?bm' = "if fst ?res < bva then Some a else bma"
  let ?be' = "if ?bv' < be then ?bv' else be"
  from ab_value_rel[OF Cons.prems, of ai dl 1 "play g a"]
  have cn: "fst (snd ?res) + snd (snd ?res) \<le> snd (mmt_max ai dl 1 (play g a))" by simp
  have mm: "snd (snd (mmt_root_min ai dl g (a # rest) bvm bmm)) =
      snd (mmt_max ai dl 1 (play g a)) +
      snd (snd (if fst (mmt_max ai dl 1 (play g a)) < bvm
                then mmt_root_min ai dl g rest (fst (mmt_max ai dl 1 (play g a))) (Some a)
                else mmt_root_min ai dl g rest bvm bmm))"
    by (simp add: split_beta)
  show ?case
  proof (cases "al \<ge> ?be'")
    case True
    have ab: "abt_root_min ai dl g (a # rest) bva bma al be =
        (?bv', ?bm', fst (snd ?res), snd (snd ?res) + length rest)"
      using True by (simp add: split_beta Let_def)
    from cn mmt_root_min_nodes[of rest ai dl g "fst (mmt_max ai dl 1 (play g a))" "Some a"]
      mmt_root_min_nodes[of rest ai dl g bvm bmm] show ?thesis
      unfolding ab mm by auto
  next
    case False
    have ab: "abt_root_min ai dl g (a # rest) bva bma al be =
        (fst (abt_root_min ai dl g rest ?bv' ?bm' al ?be'),
         fst (snd (abt_root_min ai dl g rest ?bv' ?bm' al ?be')),
         fst (snd ?res) + fst (snd (snd (abt_root_min ai dl g rest ?bv' ?bm' al ?be'))),
         snd (snd ?res) + snd (snd (snd (abt_root_min ai dl g rest ?bv' ?bm' al ?be'))))"
      using False by (simp add: split_beta Let_def)
    from False have lt: "al < ?be'" by simp
    from Cons.prems have hi: "?be' \<le> INF_VAL" by simp
    from Cons.IH[OF Cons.prems(1) lt hi, of ?bv' ?bm' "fst (mmt_max ai dl 1 (play g a))" "Some a"]
      Cons.IH[OF Cons.prems(1) lt hi, of ?bv' ?bm' bvm bmm] cn show ?thesis
      unfolding ab mm by auto
  qed
qed

lemma INF_VAL_pos: "- INF_VAL < INF_VAL"
  by (simp add: INF_VAL_def)

lemma search_counts:
  "fst (snd (snd (abt_search g ai dl))) + snd (snd (snd (abt_search g ai dl)))
     \<le> snd (snd (mmt_search g ai dl))"
  using root_max_counts[of "- INF_VAL" INF_VAL ai dl g "actions g" "- INF_VAL" None "- INF_VAL" None]
    root_min_counts[of "- INF_VAL" INF_VAL ai dl g "actions g" INF_VAL None INF_VAL None]
    INF_VAL_pos
  by (simp add: abt_search_def mmt_search_def)

subsection \<open>Heuristic values stay inside the sentinels\<close>

lemma score_window_bound: "\<bar>score_window p w\<bar> \<le> 100000"
  by (simp add: score_window_def Let_def)

lemma sum_list_abs_bound:
  "(\<And>x. x \<in> set xs \<Longrightarrow> \<bar>f x\<bar> \<le> (c::int)) \<Longrightarrow> \<bar>\<Sum>x\<leftarrow>xs. f x\<bar> \<le> c * int (length xs)"
proof (induction xs)
  case Nil
  show ?case by simp
next
  case (Cons x xs)
  from Cons.prems have "\<bar>f x\<bar> \<le> c" by simp
  moreover from Cons have "\<bar>\<Sum>x\<leftarrow>xs. f x\<bar> \<le> c * int (length xs)" by simp
  ultimately show ?case by (simp add: algebra_simps)
qed

lemma length_concat_map_map:
  "length (concat (map (\<lambda>r. map (F r) ys) xs)) = length xs * length ys"
  by (induction xs) simp_all

lemma windows_count:
  "length (horizontal_windows g) \<le> rows g * cols g"
  "length (vertical_windows g) \<le> rows g * cols g"
  "length (diag_down_windows g) \<le> rows g * cols g"
  "length (diag_up_windows g) \<le> rows g * cols g"
  by (simp_all add: horizontal_windows_def vertical_windows_def diag_down_windows_def
      diag_up_windows_def length_concat_map_map mult_le_mono mult.commute)

lemma center_delta_bound: "\<bar>center_delta g p\<bar> \<le> int (rows g)"
proof -
  have "\<bar>center_delta g p\<bar> \<le> 1 * int (length [0..<rows g])"
    unfolding center_delta_def by (rule sum_list_abs_bound) simp
  then show ?thesis by simp
qed

lemma window_sum_bound:
  assumes "length ws \<le> n"
  shows "\<bar>\<Sum>w\<leftarrow>ws. score_window p w\<bar> \<le> 100000 * int n"
proof -
  have "\<bar>\<Sum>w\<leftarrow>ws. score_window p w\<bar> \<le> 100000 * int (length ws)"
    by (rule sum_list_abs_bound) (rule score_window_bound)
  also have "\<dots> \<le> 100000 * int n" using assms by simp
  finally show ?thesis .
qed

lemma evaluate_bound:
  assumes "0 < cols g" and "small_board g"
  shows "- INF_VAL < evaluate g p \<and> evaluate g p < INF_VAL"
proof -
  let ?n = "rows g * cols g"
  from assms(2) have n: "int ?n \<le> 10 ^ 12"
    unfolding small_board_def by (metis of_nat_le_iff of_nat_numeral of_nat_power)
  from assms(1) have "rows g \<le> ?n" by simp
  then have r: "int (rows g) \<le> int ?n" by (simp only: of_nat_le_iff)
  note b = window_sum_bound[of "horizontal_windows g" ?n p, OF windows_count(1)]
    window_sum_bound[of "vertical_windows g" ?n p, OF windows_count(2)]
    window_sum_bound[of "diag_down_windows g" ?n p, OF windows_count(3)]
    window_sum_bound[of "diag_up_windows g" ?n p, OF windows_count(4)]
    center_delta_bound[of g p]
  have "\<bar>0 + 6 * center_delta g p
           + (\<Sum>w\<leftarrow>horizontal_windows g. score_window p w)
           + (\<Sum>w\<leftarrow>vertical_windows g. score_window p w)
           + (\<Sum>w\<leftarrow>diag_down_windows g. score_window p w)
           + (\<Sum>w\<leftarrow>diag_up_windows g. score_window p w)\<bar> \<le> 400006 * int ?n"
    using b r by linarith
  moreover from n have "int ?n \<le> 1000000000000" by simp
  ultimately have "\<bar>0 + 6 * center_delta g p
           + (\<Sum>w\<leftarrow>horizontal_windows g. score_window p w)
           + (\<Sum>w\<leftarrow>vertical_windows g. score_window p w)
           + (\<Sum>w\<leftarrow>diag_down_windows g. score_window p w)
           + (\<Sum>w\<leftarrow>diag_up_windows g. score_window p w)\<bar> < INF_VAL"
    by (simp add: INF_VAL_def)
  then show ?thesis
    by (auto simp: evaluate_def Let_def WIN_SCORE_def INF_VAL_def)
qed

lemma terminal_value_bound: "- INF_VAL < terminal_value g ai \<and> terminal_value g ai < INF_VAL"
  by (simp add: terminal_value_def Let_def WIN_SCORE_def INF_VAL_def)

lemma actions_nonempty: "\<not> is_full g \<Longrightarrow> actions g \<noteq> []"
  by (auto simp: is_full_def actions_def list_all_iff filter_empty_conv)

lemma play_shape:
  assumes "wf_game g" and "a \<in> set (actions g)"
  shows "wf_game (play g a)" "rows (play g a) = rows g" "cols (play g a) = cols g"
  using drop_then_undo[OF assms] by (auto simp: play_def)

lemma play_small: "wf_game g \<Longrightarrow> a \<in> set (actions g) \<Longrightarrow> small_board g \<Longrightarrow> small_board (play g a)"
  by (simp add: small_board_def play_shape)

lemma mmt_max_loop_inside:
  assumes "\<And>c. c \<in> set cs \<Longrightarrow>
      - INF_VAL < fst (mmt_min ai dl (d + 1) c) \<and> fst (mmt_min ai dl (d + 1) c) < INF_VAL"
  shows "v < INF_VAL \<Longrightarrow> cs \<noteq> [] \<or> - INF_VAL < v \<Longrightarrow>
         - INF_VAL < fst (mmt_max_loop ai dl d cs v) \<and> fst (mmt_max_loop ai dl d cs v) < INF_VAL"
  using assms
proof (induction cs arbitrary: v)
  case Nil
  then show ?case by simp
next
  case (Cons c cs)
  let ?val = "fst (mmt_min ai dl (d + 1) c)"
  let ?v' = "if ?val > v then ?val else v"
  from Cons.prems(3)[of c] have c: "- INF_VAL < ?val" "?val < INF_VAL" by simp_all
  with Cons.prems(1) have v': "?v' < INF_VAL" "- INF_VAL < ?v'" by auto
  from Cons.IH[of ?v'] v' Cons.prems(3) show ?case
    by (simp add: split_beta)
qed

lemma mmt_min_loop_inside:
  assumes "\<And>c. c \<in> set cs \<Longrightarrow>
      - INF_VAL < fst (mmt_max ai dl (d + 1) c) \<and> fst (mmt_max ai dl (d + 1) c) < INF_VAL"
  shows "- INF_VAL < v \<Longrightarrow> cs \<noteq> [] \<or> v < INF_VAL \<Longrightarrow>
         - INF_VAL < fst (mmt_min_loop ai dl d cs v) \<and> fst (mmt_min_loop ai dl d cs v) < INF_VAL"
  using assms
proof (induction cs arbitrary: v)
  case Nil
  then show ?case by simp
next
  case (Cons c cs)
  let ?val = "fst (mmt_max ai dl (d + 1) c)"
  let ?v' = "if ?val < v then ?val else v"
  from Cons.prems(3)[of c] have c: "- INF_VAL < ?val" "?val < INF_VAL" by simp_all
  with Cons.prems(1) have v': "- INF_VAL < ?v'" "?v' < INF_VAL" by auto
  from Cons.IH[of ?v'] v' Cons.prems(3) show ?case
    by (simp add: split_beta)
qed

lemma mmt_value_inside:
  "wf_game g \<Longrightarrow> small_board g \<Longrightarrow>
   (- INF_VAL < fst (mmt_max ai dl d g) \<and> fst (mmt_max ai dl d g) < INF_VAL) \<and>
   (- INF_VAL < fst (mmt_min ai dl d g) \<and> fst (mmt_min ai dl d g) < INF_VAL)"
proof (induction "nat (dl - d)" arbitrary: d g rule: less_induct)
  case less
  note wf = less.prems(1) and sm = less.prems(2)
  from wf have cp: "0 < cols g" by (simp add: wf_game_def)
  show ?case
  proof (cases "terminal g \<or> d \<ge> dl")
    case True
    with evaluate_bound[OF cp sm, of ai] terminal_value_bound[of g ai] show ?thesis
      by (auto simp: mmt_max.simps mmt_min.simps)
  next
    case False
    then have nt: "\<not> terminal g" and dlt: "\<not> d \<ge> dl" by simp_all
    from dlt have m: "nat (dl - (d + 1)) < nat (dl - d)" by simp
    from nt have ne: "map (play g) (actions g) \<noteq> []"
      by (simp add: terminal_def actions_nonempty)
    have ch: "\<And>c. c \<in> set (map (play g) (actions g)) \<Longrightarrow> wf_game c \<and> small_board c"
      using wf sm by (auto simp: play_shape play_small)
    have cmin: "\<And>c. c \<in> set (map (play g) (actions g)) \<Longrightarrow>
        - INF_VAL < fst (mmt_min ai dl (d + 1) c) \<and> fst (mmt_min ai dl (d + 1) c) < INF_VAL"
      using less.hyps[OF m] ch by blast
    have cmax: "\<And>c. c \<in> set (map (play g) (actions g)) \<Longrightarrow>
        - INF_VAL < fst (mmt_max ai dl (d + 1) c) \<and> fst (mmt_max ai dl (d + 1) c) < INF_VAL"
      using less.hyps[OF m] ch by blast
    from mmt_max_loop_inside[of "map (play g) (actions g)" ai dl d "- INF_VAL", OF cmin] ne INF_VAL_pos
    have mx: "- INF_VAL < fst (mmt_max ai dl d g) \<and> fst (mmt_max ai dl d g) < INF_VAL"
      using nt dlt by (simp add: mmt_max.simps split_beta)
    from mmt_min_loop_inside[of "map (play g) (actions g)" ai dl d "INF_VAL", OF cmax] ne INF_VAL_pos
    have mn: "- INF_VAL < fst (mmt_min ai dl d g) \<and> fst (mmt_min ai dl d g) < INF_VAL"
      using nt dlt by (simp add: mmt_min.simps split_beta)
    from mx mn show ?thesis by blast
  qed
qed

lemma root_max_agree:
  assumes "\<And>a. a \<in> set acts \<Longrightarrow> fst (mmt_min ai dl 1 (play g a)) < INF_VAL"
  shows "- INF_VAL \<le> b \<Longrightarrow> b < INF_VAL \<Longrightarrow>
         fst (abt_root_max ai dl g acts b bm b INF_VAL) = fst (mmt_root_max ai dl g acts b bm) \<and>
         fst (snd (abt_root_max ai dl g acts b bm b INF_VAL)) = fst (snd (mmt_root_max ai dl g acts b bm))"
  using assms
proof (induction acts arbitrary: b bm)
  case Nil
  show ?case by simp
next
  case (Cons a rest)
  let ?ca = "fst (abt_min ai dl 1 b INF_VAL (play g a))"
  let ?cm = "fst (mmt_min ai dl 1 (play g a))"
  from ab_value_rel[OF Cons.prems(1) Cons.prems(2), of ai dl 1 "play g a"]
  have rel: "ab_rel b INF_VAL ?ca ?cm" by simp
  from Cons.prems(3)[of a] have cm: "?cm < INF_VAL" by simp
  with rel have ca: "?ca < INF_VAL" by (auto simp: ab_rel_def)
  have rest: "\<And>a. a \<in> set rest \<Longrightarrow> fst (mmt_min ai dl 1 (play g a)) < INF_VAL"
    using Cons.prems(3) by simp
  show ?case
  proof (cases "?ca > b")
    case True
    with rel ca have eq: "?cm = ?ca" by (simp add: ab_rel_def)
    from True Cons.prems(1) have lo: "- INF_VAL \<le> ?ca" by simp
    from Cons.IH[OF lo ca rest, of "Some a"] True ca eq show ?thesis
      by (simp add: split_beta Let_def)
  next
    case False
    with rel have le: "?cm \<le> b" by (auto simp: ab_rel_def)
    from Cons.IH[OF Cons.prems(1) Cons.prems(2) rest, of bm] False le Cons.prems(2) show ?thesis
      by (simp add: split_beta Let_def)
  qed
qed

lemma root_min_agree:
  assumes "\<And>a. a \<in> set acts \<Longrightarrow> - INF_VAL < fst (mmt_max ai dl 1 (play g a))"
  shows "- INF_VAL < b \<Longrightarrow> b \<le> INF_VAL \<Longrightarrow>
         fst (abt_root_min ai dl g acts b bm (- INF_VAL) b) = fst (mmt_root_min ai dl g acts b bm) \<and>
         fst (snd (abt_root_min ai dl g acts b bm (- INF_VAL) b)) = fst (snd (mmt_root_min ai dl g acts b bm))"
  using assms
proof (induction acts arbitrary: b bm)
  case Nil
  show ?case by simp
next
  case (Cons a rest)
  let ?ca = "fst (abt_max ai dl 1 (- INF_VAL) b (play g a))"
  let ?cm = "fst (mmt_max ai dl 1 (play g a))"
  have lo: "- INF_VAL \<le> - INF_VAL" by simp
  from ab_value_rel[OF lo Cons.prems(1) Cons.prems(2), of ai dl 1 "play g a"]
  have rel: "ab_rel (- INF_VAL) b ?ca ?cm" by simp
  from Cons.prems(3)[of a] have cm: "- INF_VAL < ?cm" by simp
  with rel have ca: "- INF_VAL < ?ca" by (auto simp: ab_rel_def)
  have rest: "\<And>a. a \<in> set rest \<Longrightarrow> - INF_VAL < fst (mmt_max ai dl 1 (play g a))"
    using Cons.prems(3) by simp
  show ?case
  proof (cases "?ca < b")
    case True
    with rel ca have eq: "?cm = ?ca" by (simp add: ab_rel_def)
    from True Cons.prems(2) have hi: "?ca \<le> INF_VAL" by simp
    from Cons.IH[OF ca hi rest, of "Some a"] True ca eq show ?thesis
      by (simp add: split_beta Let_def)
  next
    case False
    with rel have le: "b \<le> ?cm" by (auto simp: ab_rel_def)
    from Cons.IH[OF Cons.prems(1) Cons.prems(2) rest, of bm] False le Cons.prems(1) show ?thesis
      by (simp add: split_beta Let_def)
  qed
qed

lemma search_agree:
  assumes wf: "wf_game g" and sm: "small_board g"
  shows "fst (abt_search g ai dl) = fst (mmt_search g ai dl) \<and>
         fst (snd (abt_search g ai dl)) = fst (snd (mmt_search g ai dl))"
proof -
  have ch: "\<And>a. a \<in> set (actions g) \<Longrightarrow> wf_game (play g a) \<and> small_board (play g a)"
    using wf sm by (simp add: play_shape play_small)
  have c1: "\<And>a. a \<in> set (actions g) \<Longrightarrow> fst (mmt_min ai dl 1 (play g a)) < INF_VAL"
    using mmt_value_inside ch by blast
  have c2: "\<And>a. a \<in> set (actions g) \<Longrightarrow> - INF_VAL < fst (mmt_max ai dl 1 (play g a))"
    using mmt_value_inside ch by blast
  have l1: "- INF_VAL \<le> - INF_VAL" and l2: "INF_VAL \<le> INF_VAL" by simp_all
  from root_max_agree[of "actions g" ai dl g "- INF_VAL" None, OF c1 l1 INF_VAL_pos]
       root_min_agree[of "actions g" ai dl g INF_VAL None, OF c2 INF_VAL_pos l2]
  show ?thesis by (simp add: abt_search_def mmt_search_def)
qed

subsection \<open>The first best move\<close>

lemma root_max_decomp:
  "(fst (mmt_root_max ai dl g acts bv bm) = bv \<and> fst (snd (mmt_root_max ai dl g acts bv bm)) = bm \<and>
      (\<forall>x\<in>set acts. fst (mmt_min ai dl 1 (play g x)) \<le> bv)) \<or>
   (\<exists>pre a post. acts = pre @ a # post \<and>
      fst (snd (mmt_root_max ai dl g acts bv bm)) = Some a \<and>
      fst (mmt_root_max ai dl g acts bv bm) = fst (mmt_min ai dl 1 (play g a)) \<and>
      bv < fst (mmt_min ai dl 1 (play g a)) \<and>
      (\<forall>x\<in>set pre. fst (mmt_min ai dl 1 (play g x)) < fst (mmt_min ai dl 1 (play g a))) \<and>
      (\<forall>x\<in>set post. fst (mmt_min ai dl 1 (play g x)) \<le> fst (mmt_min ai dl 1 (play g a))))"
proof (induction acts arbitrary: bv bm)
  case Nil
  show ?case by simp
next
  case (Cons c rest)
  let ?val = "\<lambda>x. fst (mmt_min ai dl 1 (play g x))"
  show ?case
  proof (cases "?val c > bv")
    case True
    then have step: "fst (mmt_root_max ai dl g (c # rest) bv bm) = fst (mmt_root_max ai dl g rest (?val c) (Some c))"
      "fst (snd (mmt_root_max ai dl g (c # rest) bv bm)) = fst (snd (mmt_root_max ai dl g rest (?val c) (Some c)))"
      by (simp_all add: split_beta)
    from Cons.IH[of "?val c" "Some c"] show ?thesis
    proof
      assume a: "fst (mmt_root_max ai dl g rest (?val c) (Some c)) = ?val c \<and>
        fst (snd (mmt_root_max ai dl g rest (?val c) (Some c))) = Some c \<and>
        (\<forall>x\<in>set rest. ?val x \<le> ?val c)"
      have "c # rest = [] @ c # rest" by simp
      with a True step show ?thesis by (intro disjI2 exI[of _ "[]"] exI[of _ c] exI[of _ rest]) simp
    next
      assume "\<exists>pre a post. rest = pre @ a # post \<and>
        fst (snd (mmt_root_max ai dl g rest (?val c) (Some c))) = Some a \<and>
        fst (mmt_root_max ai dl g rest (?val c) (Some c)) = ?val a \<and> ?val c < ?val a \<and>
        (\<forall>x\<in>set pre. ?val x < ?val a) \<and> (\<forall>x\<in>set post. ?val x \<le> ?val a)"
      then obtain pre a post where b: "rest = pre @ a # post"
        "fst (snd (mmt_root_max ai dl g rest (?val c) (Some c))) = Some a"
        "fst (mmt_root_max ai dl g rest (?val c) (Some c)) = ?val a" "?val c < ?val a"
        "\<forall>x\<in>set pre. ?val x < ?val a" "\<forall>x\<in>set post. ?val x \<le> ?val a" by blast
      with True step show ?thesis
        by (intro disjI2 exI[of _ "c # pre"] exI[of _ a] exI[of _ post]) simp
    qed
  next
    case False
    then have step: "fst (mmt_root_max ai dl g (c # rest) bv bm) = fst (mmt_root_max ai dl g rest bv bm)"
      "fst (snd (mmt_root_max ai dl g (c # rest) bv bm)) = fst (snd (mmt_root_max ai dl g rest bv bm))"
      by (simp_all add: split_beta)
    from Cons.IH[of bv bm] show ?thesis
    proof
      assume "fst (mmt_root_max ai dl g rest bv bm) = bv \<and>
        fst (snd (mmt_root_max ai dl g rest bv bm)) = bm \<and> (\<forall>x\<in>set rest. ?val x \<le> bv)"
      with False step show ?thesis by simp
    next
      assume "\<exists>pre a post. rest = pre @ a # post \<and>
        fst (snd (mmt_root_max ai dl g rest bv bm)) = Some a \<and>
        fst (mmt_root_max ai dl g rest bv bm) = ?val a \<and> bv < ?val a \<and>
        (\<forall>x\<in>set pre. ?val x < ?val a) \<and> (\<forall>x\<in>set post. ?val x \<le> ?val a)"
      then obtain pre a post where b: "rest = pre @ a # post"
        "fst (snd (mmt_root_max ai dl g rest bv bm)) = Some a"
        "fst (mmt_root_max ai dl g rest bv bm) = ?val a" "bv < ?val a"
        "\<forall>x\<in>set pre. ?val x < ?val a" "\<forall>x\<in>set post. ?val x \<le> ?val a" by blast
      with False step show ?thesis
        by (intro disjI2 exI[of _ "c # pre"] exI[of _ a] exI[of _ post]) auto
    qed
  qed
qed

lemma root_min_decomp:
  "(fst (mmt_root_min ai dl g acts bv bm) = bv \<and> fst (snd (mmt_root_min ai dl g acts bv bm)) = bm \<and>
      (\<forall>x\<in>set acts. bv \<le> fst (mmt_max ai dl 1 (play g x)))) \<or>
   (\<exists>pre a post. acts = pre @ a # post \<and>
      fst (snd (mmt_root_min ai dl g acts bv bm)) = Some a \<and>
      fst (mmt_root_min ai dl g acts bv bm) = fst (mmt_max ai dl 1 (play g a)) \<and>
      fst (mmt_max ai dl 1 (play g a)) < bv \<and>
      (\<forall>x\<in>set pre. fst (mmt_max ai dl 1 (play g a)) < fst (mmt_max ai dl 1 (play g x))) \<and>
      (\<forall>x\<in>set post. fst (mmt_max ai dl 1 (play g a)) \<le> fst (mmt_max ai dl 1 (play g x))))"
proof (induction acts arbitrary: bv bm)
  case Nil
  show ?case by simp
next
  case (Cons c rest)
  let ?val = "\<lambda>x. fst (mmt_max ai dl 1 (play g x))"
  show ?case
  proof (cases "?val c < bv")
    case True
    then have step: "fst (mmt_root_min ai dl g (c # rest) bv bm) = fst (mmt_root_min ai dl g rest (?val c) (Some c))"
      "fst (snd (mmt_root_min ai dl g (c # rest) bv bm)) = fst (snd (mmt_root_min ai dl g rest (?val c) (Some c)))"
      by (simp_all add: split_beta)
    from Cons.IH[of "?val c" "Some c"] show ?thesis
    proof
      assume a: "fst (mmt_root_min ai dl g rest (?val c) (Some c)) = ?val c \<and>
        fst (snd (mmt_root_min ai dl g rest (?val c) (Some c))) = Some c \<and>
        (\<forall>x\<in>set rest. ?val c \<le> ?val x)"
      with True step show ?thesis by (intro disjI2 exI[of _ "[]"] exI[of _ c] exI[of _ rest]) simp
    next
      assume "\<exists>pre a post. rest = pre @ a # post \<and>
        fst (snd (mmt_root_min ai dl g rest (?val c) (Some c))) = Some a \<and>
        fst (mmt_root_min ai dl g rest (?val c) (Some c)) = ?val a \<and> ?val a < ?val c \<and>
        (\<forall>x\<in>set pre. ?val a < ?val x) \<and> (\<forall>x\<in>set post. ?val a \<le> ?val x)"
      then obtain pre a post where b: "rest = pre @ a # post"
        "fst (snd (mmt_root_min ai dl g rest (?val c) (Some c))) = Some a"
        "fst (mmt_root_min ai dl g rest (?val c) (Some c)) = ?val a" "?val a < ?val c"
        "\<forall>x\<in>set pre. ?val a < ?val x" "\<forall>x\<in>set post. ?val a \<le> ?val x" by blast
      with True step show ?thesis
        by (intro disjI2 exI[of _ "c # pre"] exI[of _ a] exI[of _ post]) simp
    qed
  next
    case False
    then have step: "fst (mmt_root_min ai dl g (c # rest) bv bm) = fst (mmt_root_min ai dl g rest bv bm)"
      "fst (snd (mmt_root_min ai dl g (c # rest) bv bm)) = fst (snd (mmt_root_min ai dl g rest bv bm))"
      by (simp_all add: split_beta)
    from Cons.IH[of bv bm] show ?thesis
    proof
      assume "fst (mmt_root_min ai dl g rest bv bm) = bv \<and>
        fst (snd (mmt_root_min ai dl g rest bv bm)) = bm \<and> (\<forall>x\<in>set rest. bv \<le> ?val x)"
      with False step show ?thesis by simp
    next
      assume "\<exists>pre a post. rest = pre @ a # post \<and>
        fst (snd (mmt_root_min ai dl g rest bv bm)) = Some a \<and>
        fst (mmt_root_min ai dl g rest bv bm) = ?val a \<and> ?val a < bv \<and>
        (\<forall>x\<in>set pre. ?val a < ?val x) \<and> (\<forall>x\<in>set post. ?val a \<le> ?val x)"
      then obtain pre a post where b: "rest = pre @ a # post"
        "fst (snd (mmt_root_min ai dl g rest bv bm)) = Some a"
        "fst (mmt_root_min ai dl g rest bv bm) = ?val a" "?val a < bv"
        "\<forall>x\<in>set pre. ?val a < ?val x" "\<forall>x\<in>set post. ?val a \<le> ?val x" by blast
      with False step show ?thesis
        by (intro disjI2 exI[of _ "c # pre"] exI[of _ a] exI[of _ post]) auto
    qed
  qed
qed

lemma find_first:
  "\<forall>x\<in>set pre. \<not> P x \<Longrightarrow> P a \<Longrightarrow> List.find P (pre @ a # post) = Some a"
  by (induction pre) auto

lemma Max_first:
  fixes f :: "'a \<Rightarrow> int"
  assumes "\<forall>x\<in>set pre. f x < f a" "\<forall>x\<in>set post. f x \<le> f a"
  shows "Max (set (map f (pre @ a # post))) = f a"
proof (rule Max_eqI)
  show "finite (set (map f (pre @ a # post)))" by simp
  show "\<And>y. y \<in> set (map f (pre @ a # post)) \<Longrightarrow> y \<le> f a"
    using assms by (auto simp: less_imp_le)
  show "f a \<in> set (map f (pre @ a # post))" by simp
qed

lemma Min_first:
  fixes f :: "'a \<Rightarrow> int"
  assumes "\<forall>x\<in>set pre. f a < f x" "\<forall>x\<in>set post. f a \<le> f x"
  shows "Min (set (map f (pre @ a # post))) = f a"
proof (rule Min_eqI)
  show "finite (set (map f (pre @ a # post)))" by simp
  show "\<And>y. y \<in> set (map f (pre @ a # post)) \<Longrightarrow> f a \<le> y"
    using assms by (auto simp: less_imp_le)
  show "f a \<in> set (map f (pre @ a # post))" by simp
qed

lemma search_first_best:
  assumes wf: "wf_game g" and sm: "small_board g" and ne: "actions g \<noteq> []"
  shows "first_best g ai dl (fst (snd (mmt_search g ai dl))) (fst (mmt_search g ai dl))"
proof -
  have ch: "\<And>a. a \<in> set (actions g) \<Longrightarrow> wf_game (play g a) \<and> small_board (play g a)"
    using wf sm by (simp add: play_shape play_small)
  from ne obtain a0 where a0: "a0 \<in> set (actions g)" by (cases "actions g") auto
  show ?thesis
  proof (cases "current_player g = ai")
    case True
    let ?val = "\<lambda>x. fst (mmt_min ai dl 1 (play g x))"
    have cv: "child_value g ai dl = ?val" using True by (simp add: child_value_def fun_eq_iff)
    from mmt_value_inside ch a0 have "- INF_VAL < ?val a0" by blast
    with a0 have not1: "\<not> (\<forall>x\<in>set (actions g). ?val x \<le> - INF_VAL)"
      by (meson not_le)
    from root_max_decomp[of ai dl g "actions g" "- INF_VAL" None] not1
    obtain pre a post where b: "actions g = pre @ a # post"
      "fst (snd (mmt_root_max ai dl g (actions g) (- INF_VAL) None)) = Some a"
      "fst (mmt_root_max ai dl g (actions g) (- INF_VAL) None) = ?val a"
      "\<forall>x\<in>set pre. ?val x < ?val a" "\<forall>x\<in>set post. ?val x \<le> ?val a"
      by blast
    from b(4) have nx: "\<forall>x\<in>set pre. \<not> (?val x = ?val a)" by auto
    have f: "List.find (\<lambda>x. ?val x = ?val a) (pre @ a # post) = Some a"
      by (rule find_first[OF nx]) simp
    have m: "Max (set (map ?val (pre @ a # post))) = ?val a"
      by (rule Max_first[OF b(4) b(5)])
    from True ne b f m show ?thesis
      by (simp add: first_best_def mmt_search_def cv)
  next
    case False
    let ?val = "\<lambda>x. fst (mmt_max ai dl 1 (play g x))"
    have cv: "child_value g ai dl = ?val" using False by (simp add: child_value_def fun_eq_iff)
    from mmt_value_inside ch a0 have "?val a0 < INF_VAL" by blast
    with a0 have not1: "\<not> (\<forall>x\<in>set (actions g). INF_VAL \<le> ?val x)"
      by (meson not_le)
    from root_min_decomp[of ai dl g "actions g" "INF_VAL" None] not1
    obtain pre a post where b: "actions g = pre @ a # post"
      "fst (snd (mmt_root_min ai dl g (actions g) INF_VAL None)) = Some a"
      "fst (mmt_root_min ai dl g (actions g) INF_VAL None) = ?val a"
      "\<forall>x\<in>set pre. ?val a < ?val x" "\<forall>x\<in>set post. ?val a \<le> ?val x"
      by blast
    from b(4) have nx: "\<forall>x\<in>set pre. \<not> (?val x = ?val a)" by auto
    have f: "List.find (\<lambda>x. ?val x = ?val a) (pre @ a # post) = Some a"
      by (rule find_first[OF nx]) simp
    have m: "Min (set (map ?val (pre @ a # post))) = ?val a"
      by (rule Min_first[OF b(4) b(5)])
    from False ne b f m show ?thesis
      by (simp add: first_best_def mmt_search_def cv)
  qed
qed

lemma first_best_move:
  "first_best g ai dl bm bv \<Longrightarrow> \<exists>m. bm = Some m \<and> m \<in> set (actions g)"
proof -
  assume fb: "first_best g ai dl bm bv"
  then have ne: "actions g \<noteq> []" and
    bv: "bv = (if current_player g = ai
           then Max (set (map (child_value g ai dl) (actions g)))
           else Min (set (map (child_value g ai dl) (actions g))))" and
    bm: "bm = List.find (\<lambda>a. child_value g ai dl a = bv) (actions g)"
    by (simp_all add: first_best_def)
  from ne have fin: "finite (set (map (child_value g ai dl) (actions g)))"
    and nes: "set (map (child_value g ai dl) (actions g)) \<noteq> {}" by simp_all
  from bv Max_in[OF fin nes] Min_in[OF fin nes]
  have "bv \<in> set (map (child_value g ai dl) (actions g))" by (simp split: if_splits)
  then obtain a where "a \<in> set (actions g)" "child_value g ai dl a = bv" by auto
  then have "List.find (\<lambda>a. child_value g ai dl a = bv) (actions g) \<noteq> None"
    by (auto simp: find_None_iff)
  then obtain m where m: "List.find (\<lambda>a. child_value g ai dl a = bv) (actions g) = Some m" by auto
  then have "m \<in> set (actions g)" by (auto simp: find_Some_iff)
  with m bm show ?thesis by simp
qed

subsection \<open>The root node of the trace\<close>

text \<open>
  Every node made during a search gets an id above the root's, and \<open>set_value\<close> is only
  called with the id of the node being searched, so the root node is written once, at
  the end, with \<open>best_val\<close>.
\<close>

lemma root_kept_refl [simp]: "root_kept t t"
  by (simp add: root_kept_def split: option.splits)

lemma root_kept_trans: "root_kept t t1 \<Longrightarrow> root_kept t1 t2 \<Longrightarrow> root_kept t t2"
  by (auto simp: root_kept_def split: option.splits)

lemma ids_above_kept: "ids_above t nid \<Longrightarrow> root_kept t t' \<Longrightarrow> ids_above t' nid"
  by (auto simp: root_kept_def ids_above_def split: option.splits)

lemma ids_above_None: "ids_above t nid \<Longrightarrow> ids_above t None"
  by (auto simp: ids_above_def split: option.splits)

lemma set_value_nodes_hd:
  "ns \<noteq> [] \<Longrightarrow> tn_id (hd ns) \<noteq> i \<Longrightarrow>
     set_value_nodes ns i v al be \<noteq> [] \<and> hd (set_value_nodes ns i v al be) = hd ns"
  by (cases ns) auto

lemma enter_node_tracer: "tracer (enter_node d s) = tracer s"
  by (simp add: enter_node_def)

lemma trace_child_kept:
  assumes "trace_child within ai nid a dep al be s = (cid, s1)" and "ids_above (tracer s) None"
  shows "root_kept (tracer s) (tracer s1)" "ids_above (tracer s1) cid"
  using assms
  by (auto simp: trace_child_def new_node_def root_kept_def ids_above_def
      split: option.splits if_splits prod.splits)

lemma trace_value_kept:
  assumes "ids_above (tracer s) nid"
  shows "root_kept (tracer s) (tracer (trace_value within nid v al be s))"
  using assms
  by (auto simp: trace_value_def set_value_def root_kept_def ids_above_def set_value_nodes_hd
      split: option.splits)

lemma pruned_nodes_kept:
  "nodes tr \<noteq> [] \<Longrightarrow>
     next_id tr \<le> next_id (pruned_nodes tr nid rest dep turn al be) \<and>
     nodes (pruned_nodes tr nid rest dep turn al be) \<noteq> [] \<and>
     hd (nodes (pruned_nodes tr nid rest dep turn al be)) = hd (nodes tr)"
proof (induction rest arbitrary: tr)
  case Nil
  then show ?case by simp
next
  case (Cons a rest)
  let ?tr1 = "snd (new_node tr nid (Some a) dep turn ''PRUNED'' (Some al) (Some be) True)"
  from Cons.prems have n1: "nodes ?tr1 \<noteq> []" "hd (nodes ?tr1) = hd (nodes tr)" "next_id tr \<le> next_id ?tr1"
    by (simp_all add: new_node_def)
  from Cons.IH[OF n1(1)] n1 show ?case by simp
qed

lemma trace_pruned_kept:
  assumes "ids_above (tracer s) None"
  shows "root_kept (tracer s) (tracer (trace_pruned within nid rest dep al be s))"
  using assms pruned_nodes_kept
  by (auto simp: trace_pruned_def root_kept_def ids_above_def split: option.splits)

lemma tracer_game_update [simp]: "tracer (s \<lparr> game := g \<rparr>) = tracer s"
  by simp


lemma mm_max_loop_trace:
  assumes child: "\<And>nid s v s'. mm_min_value ai dl (d + 1) nid s = Inr (v, s') \<Longrightarrow>
      ids_above (tracer s) nid \<Longrightarrow> root_kept (tracer s) (tracer s')"
  shows "mm_max_loop ai dl d nid acts v s = Inr (v', s') \<Longrightarrow> ids_above (tracer s) nid \<Longrightarrow>
         root_kept (tracer s) (tracer s')"
proof (induction acts arbitrary: v s)
  case Nil
  then show ?case by (simp add: mm_max_loop.simps)
next
  case (Cons a rest)
  note run = Cons.prems(1) and ids = Cons.prems(2)
  obtain r g1 where d: "drop_disc (game s) a None = (r, g1)"
    by (cases "drop_disc (game s) a None")
  obtain cid s1 where tc: "trace_child (\<lambda>tr. d < trace_depth tr) ai nid a (d + 1) None None
      (s \<lparr> game := g1 \<rparr>) = (cid, s1)"
    by (cases "trace_child (\<lambda>tr. d < trace_depth tr) ai nid a (d + 1) None None (s \<lparr> game := g1 \<rparr>)")
  from ids have ids0: "ids_above (tracer (s \<lparr> game := g1 \<rparr>)) None"
    by (simp add: ids_above_None)
  from trace_child_kept[OF tc ids0] have k1: "root_kept (tracer s) (tracer s1)"
    and i1: "ids_above (tracer s1) cid" by simp_all
  show ?case
  proof (cases r)
    case (Inl e)
    with run d show ?thesis by (simp add: mm_max_loop.simps)
  next
    case (Inr mv)
    note r = this
    show ?thesis
    proof (cases "mm_min_value ai dl (d + 1) cid s1")
      case (Inl e)
      with run d r tc show ?thesis by (simp add: mm_max_loop.simps)
    next
      case (Inr p)
      obtain val s2 where p: "p = (val, s2)" by (cases p)
      with Inr have c: "mm_min_value ai dl (d + 1) cid s1 = Inr (val, s2)" by simp
      from child[OF c i1] have k2: "root_kept (tracer s1) (tracer s2)" .
      from root_kept_trans[OF k1 k2] have k12: "root_kept (tracer s) (tracer s2)" .
      obtain r2 g3 where u: "undo_disc (game s2) mv = (r2, g3)"
        by (cases "undo_disc (game s2) mv")
      show ?thesis
      proof (cases r2)
        case (Inl e)
        with run d r tc c u show ?thesis by (simp add: mm_max_loop.simps)
      next
        case (Inr un)
        let ?v2 = "if val > v then val else v"
        let ?s3 = "s2 \<lparr> game := g3 \<rparr>"
        from ids_above_kept[OF ids k12] have i3: "ids_above (tracer ?s3) nid" by simp
        from run d r tc c u Inr have rec: "mm_max_loop ai dl d nid rest ?v2 ?s3 = Inr (v', s')"
          by (simp add: mm_max_loop.simps)
        from Cons.IH[OF rec i3] have "root_kept (tracer s2) (tracer s')" by simp
        with k12 show ?thesis by (rule root_kept_trans)
      qed
    qed
  qed
qed

lemma mm_min_loop_trace:
  assumes child: "\<And>nid s v s'. mm_max_value ai dl (d + 1) nid s = Inr (v, s') \<Longrightarrow>
      ids_above (tracer s) nid \<Longrightarrow> root_kept (tracer s) (tracer s')"
  shows "mm_min_loop ai dl d nid acts v s = Inr (v', s') \<Longrightarrow> ids_above (tracer s) nid \<Longrightarrow>
         root_kept (tracer s) (tracer s')"
proof (induction acts arbitrary: v s)
  case Nil
  then show ?case by (simp add: mm_min_loop.simps)
next
  case (Cons a rest)
  note run = Cons.prems(1) and ids = Cons.prems(2)
  obtain r g1 where d: "drop_disc (game s) a None = (r, g1)"
    by (cases "drop_disc (game s) a None")
  obtain cid s1 where tc: "trace_child (\<lambda>tr. d < trace_depth tr) ai nid a (d + 1) None None
      (s \<lparr> game := g1 \<rparr>) = (cid, s1)"
    by (cases "trace_child (\<lambda>tr. d < trace_depth tr) ai nid a (d + 1) None None (s \<lparr> game := g1 \<rparr>)")
  from ids have ids0: "ids_above (tracer (s \<lparr> game := g1 \<rparr>)) None"
    by (simp add: ids_above_None)
  from trace_child_kept[OF tc ids0] have k1: "root_kept (tracer s) (tracer s1)"
    and i1: "ids_above (tracer s1) cid" by simp_all
  show ?case
  proof (cases r)
    case (Inl e)
    with run d show ?thesis by (simp add: mm_min_loop.simps)
  next
    case (Inr mv)
    note r = this
    show ?thesis
    proof (cases "mm_max_value ai dl (d + 1) cid s1")
      case (Inl e)
      with run d r tc show ?thesis by (simp add: mm_min_loop.simps)
    next
      case (Inr p)
      obtain val s2 where p: "p = (val, s2)" by (cases p)
      with Inr have c: "mm_max_value ai dl (d + 1) cid s1 = Inr (val, s2)" by simp
      from child[OF c i1] have k2: "root_kept (tracer s1) (tracer s2)" .
      from root_kept_trans[OF k1 k2] have k12: "root_kept (tracer s) (tracer s2)" .
      obtain r2 g3 where u: "undo_disc (game s2) mv = (r2, g3)"
        by (cases "undo_disc (game s2) mv")
      show ?thesis
      proof (cases r2)
        case (Inl e)
        with run d r tc c u show ?thesis by (simp add: mm_min_loop.simps)
      next
        case (Inr un)
        let ?v2 = "if val < v then val else v"
        let ?s3 = "s2 \<lparr> game := g3 \<rparr>"
        from ids_above_kept[OF ids k12] have i3: "ids_above (tracer ?s3) nid" by simp
        from run d r tc c u Inr have rec: "mm_min_loop ai dl d nid rest ?v2 ?s3 = Inr (v', s')"
          by (simp add: mm_min_loop.simps)
        from Cons.IH[OF rec i3] have "root_kept (tracer s2) (tracer s')" by simp
        with k12 show ?thesis by (rule root_kept_trans)
      qed
    qed
  qed
qed

lemma mm_value_trace:
  "(\<forall>v s'. mm_max_value ai dl d nid s = Inr (v, s') \<longrightarrow> ids_above (tracer s) nid \<longrightarrow> root_kept (tracer s) (tracer s')) \<and>
   (\<forall>v s'. mm_min_value ai dl d nid s = Inr (v, s') \<longrightarrow> ids_above (tracer s) nid \<longrightarrow> root_kept (tracer s) (tracer s'))"
proof (induction "nat (dl - d)" arbitrary: d nid s rule: less_induct)
  case less
  have child_min: "\<And>nid s v s'. mm_min_value ai dl (d + 1) nid s = Inr (v, s') \<Longrightarrow>
        ids_above (tracer s) nid \<Longrightarrow> root_kept (tracer s) (tracer s')" if "\<not> d \<ge> dl"
    using less.hyps[of "d + 1"] that by auto
  have child_max: "\<And>nid s v s'. mm_max_value ai dl (d + 1) nid s = Inr (v, s') \<Longrightarrow>
        ids_above (tracer s) nid \<Longrightarrow> root_kept (tracer s) (tracer s')" if "\<not> d \<ge> dl"
    using less.hyps[of "d + 1"] that by auto

  have "root_kept (tracer s) (tracer s')" if run: "mm_max_value ai dl d nid s = Inr (v, s')" and ids: "ids_above (tracer s) nid"
    for v s'
  proof (cases "terminal (game s) \<or> d \<ge> dl")
    case True
    with run have "s' = enter_node d s"
      by (auto simp: mm_max_value.simps Let_def split: if_splits)
    then show ?thesis by (simp add: enter_node_tracer)
  next
    case False
    then have nt: "\<not> terminal (game s)" and dlt: "\<not> d \<ge> dl" by simp_all
    show ?thesis
    proof (cases "mm_max_loop ai dl d nid (actions (game s)) (- INF_VAL) (enter_node d s)")
      case (Inl e)
      with run nt dlt show ?thesis by (simp add: mm_max_value.simps Let_def)
    next
      case (Inr p)
      obtain v2 s2 where p: "p = (v2, s2)" by (cases p)
      with Inr have l: "mm_max_loop ai dl d nid (actions (game s)) (- INF_VAL) (enter_node d s) = Inr (v2, s2)" by simp
      from ids have ids1: "ids_above (tracer (enter_node d s)) nid" by (simp add: enter_node_tracer)
      from mm_max_loop_trace[OF child_min[OF dlt] l ids1]
      have k: "root_kept (tracer s) (tracer s2)" by (simp add: enter_node_tracer)
      from ids_above_kept[OF ids k] have i2: "ids_above (tracer s2) nid" .
      from run nt dlt l have e: "s' = trace_value (\<lambda>tr. d \<le> trace_depth tr) nid v2 None None s2"
        by (auto simp: mm_max_value.simps Let_def)
      from trace_value_kept[OF i2, of "\<lambda>tr. d \<le> trace_depth tr" v2 None None]
      have "root_kept (tracer s2) (tracer s')" unfolding e .
      with k show ?thesis by (rule root_kept_trans)
    qed
  qed
  moreover

  have "root_kept (tracer s) (tracer s')" if run: "mm_min_value ai dl d nid s = Inr (v, s')" and ids: "ids_above (tracer s) nid"
    for v s'
  proof (cases "terminal (game s) \<or> d \<ge> dl")
    case True
    with run have "s' = enter_node d s"
      by (auto simp: mm_min_value.simps Let_def split: if_splits)
    then show ?thesis by (simp add: enter_node_tracer)
  next
    case False
    then have nt: "\<not> terminal (game s)" and dlt: "\<not> d \<ge> dl" by simp_all
    show ?thesis
    proof (cases "mm_min_loop ai dl d nid (actions (game s)) (INF_VAL) (enter_node d s)")
      case (Inl e)
      with run nt dlt show ?thesis by (simp add: mm_min_value.simps Let_def)
    next
      case (Inr p)
      obtain v2 s2 where p: "p = (v2, s2)" by (cases p)
      with Inr have l: "mm_min_loop ai dl d nid (actions (game s)) (INF_VAL) (enter_node d s) = Inr (v2, s2)" by simp
      from ids have ids1: "ids_above (tracer (enter_node d s)) nid" by (simp add: enter_node_tracer)
      from mm_min_loop_trace[OF child_max[OF dlt] l ids1]
      have k: "root_kept (tracer s) (tracer s2)" by (simp add: enter_node_tracer)
      from ids_above_kept[OF ids k] have i2: "ids_above (tracer s2) nid" .
      from run nt dlt l have e: "s' = trace_value (\<lambda>tr. d \<le> trace_depth tr) nid v2 None None s2"
        by (auto simp: mm_min_value.simps Let_def)
      from trace_value_kept[OF i2, of "\<lambda>tr. d \<le> trace_depth tr" v2 None None]
      have "root_kept (tracer s2) (tracer s')" unfolding e .
      with k show ?thesis by (rule root_kept_trans)
    qed
  qed
  ultimately show ?case by blast
qed

lemma ab_max_loop_trace:
  assumes child: "\<And>nid s al be v s'. ab_min_value ai dl (d + 1) al be nid s = Inr (v, s') \<Longrightarrow>
      ids_above (tracer s) nid \<Longrightarrow> root_kept (tracer s) (tracer s')"
  shows "ab_max_loop ai dl d nid acts v al be s = Inr (v', b', s') \<Longrightarrow> ids_above (tracer s) nid \<Longrightarrow>
         root_kept (tracer s) (tracer s')"
proof (induction acts arbitrary: v al be s)
  case Nil
  then show ?case by (simp add: ab_max_loop.simps)
next
  case (Cons a rest)
  note run = Cons.prems(1) and ids = Cons.prems(2)
  obtain r g1 where d: "drop_disc (game s) a None = (r, g1)"
    by (cases "drop_disc (game s) a None")
  obtain cid s1 where tc: "trace_child (\<lambda>tr. d < trace_depth tr) ai nid a (d + 1) (Some al) (Some be)
      (s \<lparr> game := g1 \<rparr>) = (cid, s1)"
    by (cases "trace_child (\<lambda>tr. d < trace_depth tr) ai nid a (d + 1) (Some al) (Some be) (s \<lparr> game := g1 \<rparr>)")
  from ids have ids0: "ids_above (tracer (s \<lparr> game := g1 \<rparr>)) None"
    by (simp add: ids_above_None)
  from trace_child_kept[OF tc ids0] have k1: "root_kept (tracer s) (tracer s1)"
    and i1: "ids_above (tracer s1) cid" by simp_all
  show ?case
  proof (cases r)
    case (Inl e)
    with run d show ?thesis by (simp add: ab_max_loop.simps)
  next
    case (Inr mv)
    note r = this
    show ?thesis
    proof (cases "ab_min_value ai dl (d + 1) al be cid s1")
      case (Inl e)
      with run d r tc show ?thesis by (simp add: ab_max_loop.simps)
    next
      case (Inr p)
      obtain val s2 where p: "p = (val, s2)" by (cases p)
      with Inr have c: "ab_min_value ai dl (d + 1) al be cid s1 = Inr (val, s2)" by simp
      from child[OF c i1] have k2: "root_kept (tracer s1) (tracer s2)" .
      from root_kept_trans[OF k1 k2] have k12: "root_kept (tracer s) (tracer s2)" .
      obtain r2 g3 where u: "undo_disc (game s2) mv = (r2, g3)"
        by (cases "undo_disc (game s2) mv")
      show ?thesis
      proof (cases r2)
        case (Inl e)
        with run d r tc c u show ?thesis by (simp add: ab_max_loop.simps)
      next
        case (Inr un)
        let ?v2 = "if val > v then val else v"
        let ?s3 = "s2 \<lparr> game := g3 \<rparr>"
        from ids_above_kept[OF ids k12] have i3: "ids_above (tracer ?s3) nid" by simp
        let ?b2 = "if ?v2 > al then ?v2 else al"
        show ?thesis
        proof (cases "?b2 \<ge> be")
          case True
          with run d r tc c u Inr have e: "s' = trace_pruned (\<lambda>tr. d < trace_depth tr) nid rest (d + 1) ?b2 be ?s3"
            by (auto simp: ab_max_loop.simps Let_def)
          from i3 have "ids_above (tracer ?s3) None" by (rule ids_above_None)
          from trace_pruned_kept[OF this, of "\<lambda>tr. d < trace_depth tr" nid rest "d + 1" "?b2" be]
          have "root_kept (tracer s2) (tracer s')" unfolding e by simp
          with k12 show ?thesis by (rule root_kept_trans)
        next
          case False
          with run d r tc c u Inr have rec: "ab_max_loop ai dl d nid rest ?v2 ?b2 be ?s3 = Inr (v', b', s')"
            by (simp add: ab_max_loop.simps Let_def)
          from Cons.IH[OF rec i3] have "root_kept (tracer s2) (tracer s')" by simp
          with k12 show ?thesis by (rule root_kept_trans)
        qed
      qed
    qed
  qed
qed

lemma ab_min_loop_trace:
  assumes child: "\<And>nid s al be v s'. ab_max_value ai dl (d + 1) al be nid s = Inr (v, s') \<Longrightarrow>
      ids_above (tracer s) nid \<Longrightarrow> root_kept (tracer s) (tracer s')"
  shows "ab_min_loop ai dl d nid acts v al be s = Inr (v', b', s') \<Longrightarrow> ids_above (tracer s) nid \<Longrightarrow>
         root_kept (tracer s) (tracer s')"
proof (induction acts arbitrary: v al be s)
  case Nil
  then show ?case by (simp add: ab_min_loop.simps)
next
  case (Cons a rest)
  note run = Cons.prems(1) and ids = Cons.prems(2)
  obtain r g1 where d: "drop_disc (game s) a None = (r, g1)"
    by (cases "drop_disc (game s) a None")
  obtain cid s1 where tc: "trace_child (\<lambda>tr. d < trace_depth tr) ai nid a (d + 1) (Some al) (Some be)
      (s \<lparr> game := g1 \<rparr>) = (cid, s1)"
    by (cases "trace_child (\<lambda>tr. d < trace_depth tr) ai nid a (d + 1) (Some al) (Some be) (s \<lparr> game := g1 \<rparr>)")
  from ids have ids0: "ids_above (tracer (s \<lparr> game := g1 \<rparr>)) None"
    by (simp add: ids_above_None)
  from trace_child_kept[OF tc ids0] have k1: "root_kept (tracer s) (tracer s1)"
    and i1: "ids_above (tracer s1) cid" by simp_all
  show ?case
  proof (cases r)
    case (Inl e)
    with run d show ?thesis by (simp add: ab_min_loop.simps)
  next
    case (Inr mv)
    note r = this
    show ?thesis
    proof (cases "ab_max_value ai dl (d + 1) al be cid s1")
      case (Inl e)
      with run d r tc show ?thesis by (simp add: ab_min_loop.simps)
    next
      case (Inr p)
      obtain val s2 where p: "p = (val, s2)" by (cases p)
      with Inr have c: "ab_max_value ai dl (d + 1) al be cid s1 = Inr (val, s2)" by simp
      from child[OF c i1] have k2: "root_kept (tracer s1) (tracer s2)" .
      from root_kept_trans[OF k1 k2] have k12: "root_kept (tracer s) (tracer s2)" .
      obtain r2 g3 where u: "undo_disc (game s2) mv = (r2, g3)"
        by (cases "undo_disc (game s2) mv")
      show ?thesis
      proof (cases r2)
        case (Inl e)
        with run d r tc c u show ?thesis by (simp add: ab_min_loop.simps)
      next
        case (Inr un)
        let ?v2 = "if val < v then val else v"
        let ?s3 = "s2 \<lparr> game := g3 \<rparr>"
        from ids_above_kept[OF ids k12] have i3: "ids_above (tracer ?s3) nid" by simp
        let ?b2 = "if ?v2 < be then ?v2 else be"
        show ?thesis
        proof (cases "al \<ge> ?b2")
          case True
          with run d r tc c u Inr have e: "s' = trace_pruned (\<lambda>tr. d < trace_depth tr) nid rest (d + 1) al ?b2 ?s3"
            by (auto simp: ab_min_loop.simps Let_def)
          from i3 have "ids_above (tracer ?s3) None" by (rule ids_above_None)
          from trace_pruned_kept[OF this, of "\<lambda>tr. d < trace_depth tr" nid rest "d + 1" al "?b2"]
          have "root_kept (tracer s2) (tracer s')" unfolding e by simp
          with k12 show ?thesis by (rule root_kept_trans)
        next
          case False
          with run d r tc c u Inr have rec: "ab_min_loop ai dl d nid rest ?v2 al ?b2 ?s3 = Inr (v', b', s')"
            by (simp add: ab_min_loop.simps Let_def)
          from Cons.IH[OF rec i3] have "root_kept (tracer s2) (tracer s')" by simp
          with k12 show ?thesis by (rule root_kept_trans)
        qed
      qed
    qed
  qed
qed

lemma ab_value_trace:
  "(\<forall>v s'. ab_max_value ai dl d al be nid s = Inr (v, s') \<longrightarrow> ids_above (tracer s) nid \<longrightarrow> root_kept (tracer s) (tracer s')) \<and>
   (\<forall>v s'. ab_min_value ai dl d al be nid s = Inr (v, s') \<longrightarrow> ids_above (tracer s) nid \<longrightarrow> root_kept (tracer s) (tracer s'))"
proof (induction "nat (dl - d)" arbitrary: d al be nid s rule: less_induct)
  case less
  have child_min: "\<And>nid s al be v s'. ab_min_value ai dl (d + 1) al be nid s = Inr (v, s') \<Longrightarrow>
        ids_above (tracer s) nid \<Longrightarrow> root_kept (tracer s) (tracer s')" if "\<not> d \<ge> dl"
    using less.hyps[of "d + 1"] that by auto
  have child_max: "\<And>nid s al be v s'. ab_max_value ai dl (d + 1) al be nid s = Inr (v, s') \<Longrightarrow>
        ids_above (tracer s) nid \<Longrightarrow> root_kept (tracer s) (tracer s')" if "\<not> d \<ge> dl"
    using less.hyps[of "d + 1"] that by auto

  have "root_kept (tracer s) (tracer s')" if run: "ab_max_value ai dl d al be nid s = Inr (v, s')" and ids: "ids_above (tracer s) nid"
    for v s'
  proof (cases "terminal (game s) \<or> d \<ge> dl")
    case True
    with run have "s' = enter_node d s"
      by (auto simp: ab_max_value.simps Let_def split: if_splits)
    then show ?thesis by (simp add: enter_node_tracer)
  next
    case False
    then have nt: "\<not> terminal (game s)" and dlt: "\<not> d \<ge> dl" by simp_all
    show ?thesis
    proof (cases "ab_max_loop ai dl d nid (actions (game s)) (- INF_VAL) al be (enter_node d s)")
      case (Inl e)
      with run nt dlt show ?thesis by (simp add: ab_max_value.simps Let_def)
    next
      case (Inr p)
      obtain v2 b2 s2 where p: "p = (v2, b2, s2)" by (cases p) auto
      with Inr have l: "ab_max_loop ai dl d nid (actions (game s)) (- INF_VAL) al be (enter_node d s) = Inr (v2, b2, s2)" by simp
      from ids have ids1: "ids_above (tracer (enter_node d s)) nid" by (simp add: enter_node_tracer)
      from ab_max_loop_trace[OF child_min[OF dlt] l ids1]
      have k: "root_kept (tracer s) (tracer s2)" by (simp add: enter_node_tracer)
      from ids_above_kept[OF ids k] have i2: "ids_above (tracer s2) nid" .
      from run nt dlt l have e: "s' = trace_value (\<lambda>tr. d \<le> trace_depth tr) nid v2 (Some b2) (Some be) s2"
        by (auto simp: ab_max_value.simps Let_def)
      from trace_value_kept[OF i2, of "\<lambda>tr. d \<le> trace_depth tr" v2 "Some b2" "Some be"]
      have "root_kept (tracer s2) (tracer s')" unfolding e .
      with k show ?thesis by (rule root_kept_trans)
    qed
  qed
  moreover

  have "root_kept (tracer s) (tracer s')" if run: "ab_min_value ai dl d al be nid s = Inr (v, s')" and ids: "ids_above (tracer s) nid"
    for v s'
  proof (cases "terminal (game s) \<or> d \<ge> dl")
    case True
    with run have "s' = enter_node d s"
      by (auto simp: ab_min_value.simps Let_def split: if_splits)
    then show ?thesis by (simp add: enter_node_tracer)
  next
    case False
    then have nt: "\<not> terminal (game s)" and dlt: "\<not> d \<ge> dl" by simp_all
    show ?thesis
    proof (cases "ab_min_loop ai dl d nid (actions (game s)) (INF_VAL) al be (enter_node d s)")
      case (Inl e)
      with run nt dlt show ?thesis by (simp add: ab_min_value.simps Let_def)
    next
      case (Inr p)
      obtain v2 b2 s2 where p: "p = (v2, b2, s2)" by (cases p) auto
      with Inr have l: "ab_min_loop ai dl d nid (actions (game s)) (INF_VAL) al be (enter_node d s) = Inr (v2, b2, s2)" by simp
      from ids have ids1: "ids_above (tracer (enter_node d s)) nid" by (simp add: enter_node_tracer)
      from ab_min_loop_trace[OF child_max[OF dlt] l ids1]
      have k: "root_kept (tracer s) (tracer s2)" by (simp add: enter_node_tracer)
      from ids_above_kept[OF ids k] have i2: "ids_above (tracer s2) nid" .
      from run nt dlt l have e: "s' = trace_value (\<lambda>tr. d \<le> trace_depth tr) nid v2 (Some al) (Some b2) s2"
        by (auto simp: ab_min_value.simps Let_def)
      from trace_value_kept[OF i2, of "\<lambda>tr. d \<le> trace_depth tr" v2 "Some al" "Some b2"]
      have "root_kept (tracer s2) (tracer s')" unfolding e .
      with k show ?thesis by (rule root_kept_trans)
    qed
  qed
  ultimately show ?case by blast
qed

lemma mm_root_max_loop_trace:
  "mm_root_max_loop ai dl nid acts bv bm s = Inr (bv', bm', s') \<Longrightarrow> ids_above (tracer s) None \<Longrightarrow>
     root_kept (tracer s) (tracer s')"
proof (induction acts arbitrary: bv bm s)
  case Nil
  then show ?case by simp
next
  case (Cons a rest)
  note run = Cons.prems(1) and ids = Cons.prems(2)
  obtain r g1 where d: "drop_disc (game s) a None = (r, g1)"
    by (cases "drop_disc (game s) a None")
  obtain cid s1 where tc: "trace_child (\<lambda>tr. trace_depth tr \<ge> 1) ai nid a 1 None None
      (s \<lparr> game := g1 \<rparr>) = (cid, s1)"
    by (cases "trace_child (\<lambda>tr. trace_depth tr \<ge> 1) ai nid a 1 None None (s \<lparr> game := g1 \<rparr>)")
  from ids have ids0: "ids_above (tracer (s \<lparr> game := g1 \<rparr>)) None"
    by simp
  from trace_child_kept[OF tc ids0] have k1: "root_kept (tracer s) (tracer s1)"
    and i1: "ids_above (tracer s1) cid" by simp_all
  show ?case
  proof (cases r)
    case (Inl e)
    with run d show ?thesis by simp
  next
    case (Inr mv)
    note r = this
    show ?thesis
    proof (cases "mm_min_value ai dl 1 cid s1")
      case (Inl e)
      with run d r tc show ?thesis by simp
    next
      case (Inr p)
      obtain val s2 where p: "p = (val, s2)" by (cases p)
      with Inr have c: "mm_min_value ai dl 1 cid s1 = Inr (val, s2)" by simp
      from mm_value_trace[of ai dl 1 cid s1] c i1 have k2: "root_kept (tracer s1) (tracer s2)" by blast
      from root_kept_trans[OF k1 k2] have k12: "root_kept (tracer s) (tracer s2)" .
      obtain r2 g3 where u: "undo_disc (game s2) mv = (r2, g3)"
        by (cases "undo_disc (game s2) mv")
      show ?thesis
      proof (cases r2)
        case (Inl e)
        with run d r tc c u show ?thesis by simp
      next
        case (Inr un)
        let ?v2 = "if val > bv then val else bv"
        let ?m2 = "if val > bv then Some a else bm"
        let ?s3 = "s2 \<lparr> game := g3 \<rparr>"
        from ids_above_kept[OF ids k12] have i3: "ids_above (tracer ?s3) None" by simp
        from run d r tc c u Inr have rec: "mm_root_max_loop ai dl nid rest ?v2 ?m2 ?s3 = Inr (bv', bm', s')"
          by (simp split: if_splits)
        from Cons.IH[OF rec i3] have "root_kept (tracer s2) (tracer s')" by simp
        with k12 show ?thesis by (rule root_kept_trans)
      qed
    qed
  qed
qed

lemma mm_root_min_loop_trace:
  "mm_root_min_loop ai dl nid acts bv bm s = Inr (bv', bm', s') \<Longrightarrow> ids_above (tracer s) None \<Longrightarrow>
     root_kept (tracer s) (tracer s')"
proof (induction acts arbitrary: bv bm s)
  case Nil
  then show ?case by simp
next
  case (Cons a rest)
  note run = Cons.prems(1) and ids = Cons.prems(2)
  obtain r g1 where d: "drop_disc (game s) a None = (r, g1)"
    by (cases "drop_disc (game s) a None")
  obtain cid s1 where tc: "trace_child (\<lambda>tr. trace_depth tr \<ge> 1) ai nid a 1 None None
      (s \<lparr> game := g1 \<rparr>) = (cid, s1)"
    by (cases "trace_child (\<lambda>tr. trace_depth tr \<ge> 1) ai nid a 1 None None (s \<lparr> game := g1 \<rparr>)")
  from ids have ids0: "ids_above (tracer (s \<lparr> game := g1 \<rparr>)) None"
    by simp
  from trace_child_kept[OF tc ids0] have k1: "root_kept (tracer s) (tracer s1)"
    and i1: "ids_above (tracer s1) cid" by simp_all
  show ?case
  proof (cases r)
    case (Inl e)
    with run d show ?thesis by simp
  next
    case (Inr mv)
    note r = this
    show ?thesis
    proof (cases "mm_max_value ai dl 1 cid s1")
      case (Inl e)
      with run d r tc show ?thesis by simp
    next
      case (Inr p)
      obtain val s2 where p: "p = (val, s2)" by (cases p)
      with Inr have c: "mm_max_value ai dl 1 cid s1 = Inr (val, s2)" by simp
      from mm_value_trace[of ai dl 1 cid s1] c i1 have k2: "root_kept (tracer s1) (tracer s2)" by blast
      from root_kept_trans[OF k1 k2] have k12: "root_kept (tracer s) (tracer s2)" .
      obtain r2 g3 where u: "undo_disc (game s2) mv = (r2, g3)"
        by (cases "undo_disc (game s2) mv")
      show ?thesis
      proof (cases r2)
        case (Inl e)
        with run d r tc c u show ?thesis by simp
      next
        case (Inr un)
        let ?v2 = "if val < bv then val else bv"
        let ?m2 = "if val < bv then Some a else bm"
        let ?s3 = "s2 \<lparr> game := g3 \<rparr>"
        from ids_above_kept[OF ids k12] have i3: "ids_above (tracer ?s3) None" by simp
        from run d r tc c u Inr have rec: "mm_root_min_loop ai dl nid rest ?v2 ?m2 ?s3 = Inr (bv', bm', s')"
          by (simp split: if_splits)
        from Cons.IH[OF rec i3] have "root_kept (tracer s2) (tracer s')" by simp
        with k12 show ?thesis by (rule root_kept_trans)
      qed
    qed
  qed
qed

lemma ab_root_max_loop_trace:
  "ab_root_max_loop ai dl nid acts bv bm al be s = Inr (bv', bm', b', s') \<Longrightarrow> ids_above (tracer s) None \<Longrightarrow>
     root_kept (tracer s) (tracer s')"
proof (induction acts arbitrary: bv bm al be s)
  case Nil
  then show ?case by simp
next
  case (Cons a rest)
  note run = Cons.prems(1) and ids = Cons.prems(2)
  obtain r g1 where d: "drop_disc (game s) a None = (r, g1)"
    by (cases "drop_disc (game s) a None")
  obtain cid s1 where tc: "trace_child (\<lambda>tr. trace_depth tr \<ge> 1) ai nid a 1 (Some al) (Some be)
      (s \<lparr> game := g1 \<rparr>) = (cid, s1)"
    by (cases "trace_child (\<lambda>tr. trace_depth tr \<ge> 1) ai nid a 1 (Some al) (Some be) (s \<lparr> game := g1 \<rparr>)")
  from ids have ids0: "ids_above (tracer (s \<lparr> game := g1 \<rparr>)) None"
    by simp
  from trace_child_kept[OF tc ids0] have k1: "root_kept (tracer s) (tracer s1)"
    and i1: "ids_above (tracer s1) cid" by simp_all
  show ?case
  proof (cases r)
    case (Inl e)
    with run d show ?thesis by simp
  next
    case (Inr mv)
    note r = this
    show ?thesis
    proof (cases "ab_min_value ai dl 1 al be cid s1")
      case (Inl e)
      with run d r tc show ?thesis by simp
    next
      case (Inr p)
      obtain val s2 where p: "p = (val, s2)" by (cases p)
      with Inr have c: "ab_min_value ai dl 1 al be cid s1 = Inr (val, s2)" by simp
      from ab_value_trace[of ai dl 1 al be cid s1] c i1 have k2: "root_kept (tracer s1) (tracer s2)" by blast
      from root_kept_trans[OF k1 k2] have k12: "root_kept (tracer s) (tracer s2)" .
      obtain r2 g3 where u: "undo_disc (game s2) mv = (r2, g3)"
        by (cases "undo_disc (game s2) mv")
      show ?thesis
      proof (cases r2)
        case (Inl e)
        with run d r tc c u show ?thesis by simp
      next
        case (Inr un)
        let ?v2 = "if val > bv then val else bv"
        let ?m2 = "if val > bv then Some a else bm"
        let ?s3 = "s2 \<lparr> game := g3 \<rparr>"
        let ?b2 = "if ?v2 > al then ?v2 else al"
        from ids_above_kept[OF ids k12] have i3: "ids_above (tracer ?s3) None" by simp
        show ?thesis
        proof (cases "?b2 \<ge> be")
          case True
          with run d r tc c u Inr have e: "s' = trace_pruned (\<lambda>tr. trace_depth tr \<ge> 1) nid rest 1 ?b2 be ?s3"
            by (auto simp: Let_def)
          from trace_pruned_kept[OF i3, of "\<lambda>tr. trace_depth tr \<ge> 1" nid rest 1 "?b2" be]
          have "root_kept (tracer s2) (tracer s')" unfolding e by simp
          with k12 show ?thesis by (rule root_kept_trans)
        next
          case False
          with run d r tc c u Inr have rec: "ab_root_max_loop ai dl nid rest ?v2 ?m2 ?b2 be ?s3 = Inr (bv', bm', b', s')"
            by (simp add: Let_def)
          from Cons.IH[OF rec i3] have "root_kept (tracer s2) (tracer s')" by simp
          with k12 show ?thesis by (rule root_kept_trans)
        qed
      qed
    qed
  qed
qed

lemma ab_root_min_loop_trace:
  "ab_root_min_loop ai dl nid acts bv bm al be s = Inr (bv', bm', b', s') \<Longrightarrow> ids_above (tracer s) None \<Longrightarrow>
     root_kept (tracer s) (tracer s')"
proof (induction acts arbitrary: bv bm al be s)
  case Nil
  then show ?case by simp
next
  case (Cons a rest)
  note run = Cons.prems(1) and ids = Cons.prems(2)
  obtain r g1 where d: "drop_disc (game s) a None = (r, g1)"
    by (cases "drop_disc (game s) a None")
  obtain cid s1 where tc: "trace_child (\<lambda>tr. trace_depth tr \<ge> 1) ai nid a 1 (Some al) (Some be)
      (s \<lparr> game := g1 \<rparr>) = (cid, s1)"
    by (cases "trace_child (\<lambda>tr. trace_depth tr \<ge> 1) ai nid a 1 (Some al) (Some be) (s \<lparr> game := g1 \<rparr>)")
  from ids have ids0: "ids_above (tracer (s \<lparr> game := g1 \<rparr>)) None"
    by simp
  from trace_child_kept[OF tc ids0] have k1: "root_kept (tracer s) (tracer s1)"
    and i1: "ids_above (tracer s1) cid" by simp_all
  show ?case
  proof (cases r)
    case (Inl e)
    with run d show ?thesis by simp
  next
    case (Inr mv)
    note r = this
    show ?thesis
    proof (cases "ab_max_value ai dl 1 al be cid s1")
      case (Inl e)
      with run d r tc show ?thesis by simp
    next
      case (Inr p)
      obtain val s2 where p: "p = (val, s2)" by (cases p)
      with Inr have c: "ab_max_value ai dl 1 al be cid s1 = Inr (val, s2)" by simp
      from ab_value_trace[of ai dl 1 al be cid s1] c i1 have k2: "root_kept (tracer s1) (tracer s2)" by blast
      from root_kept_trans[OF k1 k2] have k12: "root_kept (tracer s) (tracer s2)" .
      obtain r2 g3 where u: "undo_disc (game s2) mv = (r2, g3)"
        by (cases "undo_disc (game s2) mv")
      show ?thesis
      proof (cases r2)
        case (Inl e)
        with run d r tc c u show ?thesis by simp
      next
        case (Inr un)
        let ?v2 = "if val < bv then val else bv"
        let ?m2 = "if val < bv then Some a else bm"
        let ?s3 = "s2 \<lparr> game := g3 \<rparr>"
        let ?b2 = "if ?v2 < be then ?v2 else be"
        from ids_above_kept[OF ids k12] have i3: "ids_above (tracer ?s3) None" by simp
        show ?thesis
        proof (cases "al \<ge> ?b2")
          case True
          with run d r tc c u Inr have e: "s' = trace_pruned (\<lambda>tr. trace_depth tr \<ge> 1) nid rest 1 al ?b2 ?s3"
            by (auto simp: Let_def)
          from trace_pruned_kept[OF i3, of "\<lambda>tr. trace_depth tr \<ge> 1" nid rest 1 al "?b2"]
          have "root_kept (tracer s2) (tracer s')" unfolding e by simp
          with k12 show ?thesis by (rule root_kept_trans)
        next
          case False
          with run d r tc c u Inr have rec: "ab_root_min_loop ai dl nid rest ?v2 ?m2 al ?b2 ?s3 = Inr (bv', bm', b', s')"
            by (simp add: Let_def)
          from Cons.IH[OF rec i3] have "root_kept (tracer s2) (tracer s')" by simp
          with k12 show ?thesis by (rule root_kept_trans)
        qed
      qed
    qed
  qed
qed

lemma trace_root_ids:
  assumes "trace_root ai al be s = (rid, s1)" and "tracer s = Some tr" and "nodes tr = []"
  shows "rid = Some (next_id tr)" "ids_above (tracer s1) None"
        "\<exists>tr1. tracer s1 = Some tr1 \<and> nodes tr1 \<noteq> [] \<and> tn_id (hd (nodes tr1)) = next_id tr"
        "game s1 = game s"
  using assms by (auto simp: trace_root_def new_node_def ids_above_def)

lemma root_value_recorded:
  assumes "tracer s1 = Some tr1" and "nodes tr1 \<noteq> []" and "tn_id (hd (nodes tr1)) = i"
    and "root_kept (tracer s1) (tracer s2)"
  shows "\<exists>tr2. tracer (trace_value (\<lambda>tr. True) (Some i) v al be s2) = Some tr2 \<and> nodes tr2 \<noteq> [] \<and>
           tn_id (hd (nodes tr2)) = i \<and> tn_value (hd (nodes tr2)) = Some v"
proof -
  from assms obtain t2 where t2: "tracer s2 = Some t2" "nodes t2 \<noteq> []" "hd (nodes t2) = hd (nodes tr1)"
    by (auto simp: root_kept_def)
  then obtain n ns where ns: "nodes t2 = n # ns" by (cases "nodes t2") auto
  with t2 assms(3) have "tn_id n = i" by simp
  with t2 ns show ?thesis by (simp add: trace_value_def set_value_def)
qed

lemma minimax_search_root_recorded:
  assumes run: "minimax_search g ai dl (Some tr) = Inr (bm, bv, s)" and fresh: "nodes tr = []"
  shows "recorded_root (Inr (bm, bv, s)) = Some bv"
proof -
  let ?s0 = "\<lparr> game = g, metrics = \<lparr> nodes_expanded = 0, max_depth_reached = 0 \<rparr>,
               tracer = Some tr \<rparr>"
  obtain rid s1 where tr: "trace_root ai None None ?s0 = (rid, s1)"
    by (cases "trace_root ai None None ?s0")
  have t0: "tracer ?s0 = Some tr" by simp
  note r = trace_root_ids[OF tr t0 fresh]
  from r(3) obtain tr1 where t1: "tracer s1 = Some tr1" "nodes tr1 \<noteq> []" "tn_id (hd (nodes tr1)) = next_id tr"
    by blast
  show ?thesis
  proof (cases "current_player (game s1) = ai")
    case True
    note cp = this
    let ?l = "mm_root_max_loop ai dl rid (actions (game s1)) (- INF_VAL) None s1"
    show ?thesis
    proof (cases ?l)
      case (Inl e)
      with run tr cp show ?thesis by (simp add: minimax_search_def)
    next
      case (Inr p)
      obtain bv2 bm2 s2 where p: "p = (bv2, bm2, s2)" by (cases p) auto
      with Inr have l: "?l = Inr (bv2, bm2, s2)" by simp
      from mm_root_max_loop_trace[OF l r(2)] have k: "root_kept (tracer s1) (tracer s2)" .
      from run tr cp l have e: "bv = bv2" "s = trace_value (\<lambda>tr. True) rid bv2 None None s2"
        by (auto simp: minimax_search_def)
      from root_value_recorded[OF t1 k, of bv2 None None] show ?thesis
        unfolding e r(1) by (auto simp: recorded_root_def split: list.splits)
    qed
  next
    case False
    note cp = this
    let ?l = "mm_root_min_loop ai dl rid (actions (game s1)) INF_VAL None s1"
    show ?thesis
    proof (cases ?l)
      case (Inl e)
      with run tr cp show ?thesis by (simp add: minimax_search_def)
    next
      case (Inr p)
      obtain bv2 bm2 s2 where p: "p = (bv2, bm2, s2)" by (cases p) auto
      with Inr have l: "?l = Inr (bv2, bm2, s2)" by simp
      from mm_root_min_loop_trace[OF l r(2)] have k: "root_kept (tracer s1) (tracer s2)" .
      from run tr cp l have e: "bv = bv2" "s = trace_value (\<lambda>tr. True) rid bv2 None None s2"
        by (auto simp: minimax_search_def)
      from root_value_recorded[OF t1 k, of bv2 None None] show ?thesis
        unfolding e r(1) by (auto simp: recorded_root_def split: list.splits)
    qed
  qed
qed

lemma alphabeta_search_root_recorded:
  assumes run: "alphabeta_search g ai dl (Some tr) = Inr (bm, bv, s)" and fresh: "nodes tr = []"
  shows "recorded_root (Inr (bm, bv, s)) = Some bv"
proof -
  let ?s0 = "\<lparr> game = g, metrics = \<lparr> nodes_expanded = 0, max_depth_reached = 0 \<rparr>,
               tracer = Some tr \<rparr>"
  obtain rid s1 where tr: "trace_root ai (Some (- INF_VAL)) (Some INF_VAL) ?s0 = (rid, s1)"
    by (cases "trace_root ai (Some (- INF_VAL)) (Some INF_VAL) ?s0")
  have t0: "tracer ?s0 = Some tr" by simp
  note r = trace_root_ids[OF tr t0 fresh]
  from r(3) obtain tr1 where t1: "tracer s1 = Some tr1" "nodes tr1 \<noteq> []" "tn_id (hd (nodes tr1)) = next_id tr"
    by blast
  show ?thesis
  proof (cases "current_player (game s1) = ai")
    case True
    note cp = this
    let ?l = "ab_root_max_loop ai dl rid (actions (game s1)) (- INF_VAL) None (- INF_VAL) INF_VAL s1"
    show ?thesis
    proof (cases ?l)
      case (Inl e)
      with run tr cp show ?thesis by (simp add: alphabeta_search_def)
    next
      case (Inr p)
      obtain bv2 bm2 b2 s2 where p: "p = (bv2, bm2, b2, s2)" by (cases p) auto
      with Inr have l: "?l = Inr (bv2, bm2, b2, s2)" by simp
      from ab_root_max_loop_trace[OF l r(2)] have k: "root_kept (tracer s1) (tracer s2)" .
      from run tr cp l have e: "bv = bv2" "s = trace_value (\<lambda>tr. True) rid bv2 (Some b2) (Some INF_VAL) s2"
        by (auto simp: alphabeta_search_def)
      from root_value_recorded[OF t1 k, of bv2 "Some b2" "Some INF_VAL"] show ?thesis
        unfolding e r(1) by (auto simp: recorded_root_def split: list.splits)
    qed
  next
    case False
    note cp = this
    let ?l = "ab_root_min_loop ai dl rid (actions (game s1)) INF_VAL None (- INF_VAL) INF_VAL s1"
    show ?thesis
    proof (cases ?l)
      case (Inl e)
      with run tr cp show ?thesis by (simp add: alphabeta_search_def)
    next
      case (Inr p)
      obtain bv2 bm2 b2 s2 where p: "p = (bv2, bm2, b2, s2)" by (cases p) auto
      with Inr have l: "?l = Inr (bv2, bm2, b2, s2)" by simp
      from ab_root_min_loop_trace[OF l r(2)] have k: "root_kept (tracer s1) (tracer s2)" .
      from run tr cp l have e: "bv = bv2" "s = trace_value (\<lambda>tr. True) rid bv2 (Some (- INF_VAL)) (Some b2) s2"
        by (auto simp: alphabeta_search_def)
      from root_value_recorded[OF t1 k, of bv2 "Some (- INF_VAL)" "Some b2"] show ?thesis
        unfolding e r(1) by (auto simp: recorded_root_def split: list.splits)
    qed
  qed
qed

subsection \<open>The claims about the searches\<close>

lemma chosen_column_finish: "chosen_column (finish_decision (Inr (bm, bv, s))) = bm"
  by (cases bm) (simp_all add: chosen_column_def finish_decision_def)

lemma finish_decision_Inr:
  "finish_decision (Inr (bm, bv, s)) = Inr (r, g') \<Longrightarrow>
     bm = Some (fst r) \<and> fst (snd r) = metrics s \<and> snd (snd r) = tracer s \<and> g' = game s"
  by (cases bm) (auto simp: finish_decision_def)

lemma wf_midgame: "wf_game midgame"
  by code_simp

lemma small_midgame: "small_board midgame"
  by (simp add: small_board_def midgame_def)

lemma midgame_actions: "actions midgame \<noteq> []"
  by code_simp

text \<open>
  Claim C1. For a well-shaped state on a board of at most \<open>10^12\<close> cells, any player
  \<open>ai\<close>, any depth limit and any two tracers, the bodies of \<open>minimax_decision\<close> and
  \<open>alphabeta_decision\<close> both return, with the same best move and the same root value, so
  the two functions return the same column (or both fail, when there is no legal move).
  The root value is also the value that each search records at the root node of a tracer
  that was empty at the call, which is the tracer the decision function returns.
  When there is a legal move, the root value is the best of the root moves' values and
  the column is the first legal column that attains it.
\<close>

theorem minimax_alphabeta_agree:
  assumes "wf_game g" and "small_board g"
  shows "\<exists>bm bv s1 s2.
     minimax_search g ai dl t1 = Inr (bm, bv, s1) \<and>
     alphabeta_search g ai dl t2 = Inr (bm, bv, s2) \<and>
     chosen_column (minimax_decision g ai dl t1) = bm \<and>
     chosen_column (alphabeta_decision g ai dl t2) = bm \<and>
     (\<forall>tr. t1 = Some tr \<and> nodes tr = [] \<longrightarrow>
        recorded_root (minimax_search g ai dl t1) = Some bv) \<and>
     (\<forall>tr. t2 = Some tr \<and> nodes tr = [] \<longrightarrow>
        recorded_root (alphabeta_search g ai dl t2) = Some bv) \<and>
     (actions g = [] \<or> first_best g ai dl bm bv)"
proof -
  from minimax_search_link[OF assms(1), of ai dl t1] obtain s1 where
    m: "minimax_search g ai dl t1 = Inr (fst (snd (mmt_search g ai dl)), fst (mmt_search g ai dl), s1)"
    by blast
  from alphabeta_search_link[OF assms(1), of ai dl t2] obtain s2 where
    a: "alphabeta_search g ai dl t2 = Inr (fst (snd (abt_search g ai dl)), fst (abt_search g ai dl), s2)"
    by blast
  from search_agree[OF assms, of ai dl] have
    eq: "fst (abt_search g ai dl) = fst (mmt_search g ai dl)"
        "fst (snd (abt_search g ai dl)) = fst (snd (mmt_search g ai dl))" by simp_all
  have fb: "actions g = [] \<or>
      first_best g ai dl (fst (snd (mmt_search g ai dl))) (fst (mmt_search g ai dl))"
    using search_first_best[OF assms] by blast
  let ?bm = "fst (snd (mmt_search g ai dl))" and ?bv = "fst (mmt_search g ai dl)"
  from m have r1: "recorded_root (minimax_search g ai dl t1) = Some ?bv"
    if "t1 = Some tr" "nodes tr = []" for tr
    using minimax_search_root_recorded[of g ai dl tr ?bm ?bv s1] that by simp
  from a eq have r2: "recorded_root (alphabeta_search g ai dl t2) = Some ?bv"
    if "t2 = Some tr" "nodes tr = []" for tr
    using alphabeta_search_root_recorded[of g ai dl tr ?bm ?bv s2] that by simp
  from m a eq have
    "minimax_search g ai dl t1 = Inr (?bm, ?bv, s1)"
    "alphabeta_search g ai dl t2 = Inr (?bm, ?bv, s2)"
    "chosen_column (minimax_decision g ai dl t1) = ?bm"
    "chosen_column (alphabeta_decision g ai dl t2) = ?bm"
    by (simp_all add: minimax_decision_def alphabeta_decision_def chosen_column_finish)
  with r1 r2 fb show ?thesis by blast
qed

lemma alphabeta_midgame_2:
  "search_summary (alphabeta_search midgame 1 2 (Some fresh_tracer)) =
     Some (Some 0, 1000000000, 13, 36)"
  by code_simp

lemma alphabeta_column_midgame_2:
  "chosen_column (alphabeta_decision midgame 1 2 (Some fresh_tracer)) = Some 0"
  by code_simp

theorem minimax_alphabeta_agree_witness:
  "wf_game midgame \<and> small_board midgame \<and>
   chosen_column (minimax_decision midgame 1 2 None) = Some 0 \<and>
   chosen_column (alphabeta_decision midgame 1 2 (Some fresh_tracer)) = Some 0 \<and>
   search_summary (alphabeta_search midgame 1 2 (Some fresh_tracer)) = Some (Some 0, 1000000000, 13, 36) \<and>
   recorded_root (alphabeta_search midgame 1 2 (Some fresh_tracer)) = Some 1000000000 \<and>
   first_best midgame 1 2 (Some 0) 1000000000"
proof -
  from minimax_alphabeta_agree[OF wf_midgame small_midgame, of 1 2 None "Some fresh_tracer"]
  obtain bm bv s1 s2 where
    a: "alphabeta_search midgame 1 2 (Some fresh_tracer) = Inr (bm, bv, s2)" and
    c1: "chosen_column (minimax_decision midgame 1 2 None) = bm" and
    c2: "chosen_column (alphabeta_decision midgame 1 2 (Some fresh_tracer)) = bm" and
    rr: "\<forall>tr. Some fresh_tracer = Some tr \<and> nodes tr = [] \<longrightarrow>
           recorded_root (alphabeta_search midgame 1 2 (Some fresh_tracer)) = Some bv" and
    fb: "actions midgame = [] \<or> first_best midgame 1 2 bm bv"
    by blast
  from a alphabeta_midgame_2 have v: "bm = Some 0" "bv = 1000000000"
    by (simp_all add: search_summary_def)
  from rr have "recorded_root (alphabeta_search midgame 1 2 (Some fresh_tracer)) = Some bv"
    by (simp add: fresh_tracer_def)
  with v c1 c2 fb midgame_actions alphabeta_midgame_2 wf_midgame small_midgame show ?thesis
    by simp
qed

text \<open>
  Claim C6. For a well-shaped state, the same player and the same depth limit, both
  searches return, alpha-beta has expanded at most as many nodes as minimax, and
  strictly fewer when its trace holds more placeholders after the call than before.
  The metrics the decision functions return are those of the final state.
\<close>

theorem alphabeta_expands_fewer:
  assumes "wf_game g"
  shows "\<exists>bm1 bv1 s1 bm2 bv2 s2.
     minimax_search g ai dl t1 = Inr (bm1, bv1, s1) \<and>
     alphabeta_search g ai dl t2 = Inr (bm2, bv2, s2) \<and>
     nodes_expanded (metrics s2) \<le> nodes_expanded (metrics s1) \<and>
     (pruned_total t2 < pruned_total (tracer s2) \<longrightarrow>
        nodes_expanded (metrics s2) < nodes_expanded (metrics s1)) \<and>
     (\<forall>r g'. minimax_decision g ai dl t1 = Inr (r, g') \<longrightarrow> fst (snd r) = metrics s1) \<and>
     (\<forall>r g'. alphabeta_decision g ai dl t2 = Inr (r, g') \<longrightarrow>
        fst (snd r) = metrics s2 \<and> snd (snd r) = tracer s2)"
proof -
  from minimax_search_link[OF assms, of ai dl t1] obtain s1 where
    m: "minimax_search g ai dl t1 = Inr (fst (snd (mmt_search g ai dl)), fst (mmt_search g ai dl), s1)" and
    n1: "nodes_expanded (metrics s1) = snd (snd (mmt_search g ai dl))"
    by blast
  from alphabeta_search_link[OF assms, of ai dl t2] obtain s2 where
    a: "alphabeta_search g ai dl t2 = Inr (fst (snd (abt_search g ai dl)), fst (abt_search g ai dl), s2)" and
    n2: "nodes_expanded (metrics s2) = fst (snd (snd (abt_search g ai dl)))" and
    p2: "pruned_total (tracer s2) \<le> pruned_total t2 + snd (snd (snd (abt_search g ai dl)))"
    by blast
  from search_counts[of g ai dl] n1 n2 p2 have
    le: "nodes_expanded (metrics s2) \<le> nodes_expanded (metrics s1)" and
    lt: "pruned_total t2 < pruned_total (tracer s2) \<longrightarrow>
           nodes_expanded (metrics s2) < nodes_expanded (metrics s1)"
    by auto
  have d1: "\<forall>r g'. minimax_decision g ai dl t1 = Inr (r, g') \<longrightarrow> fst (snd r) = metrics s1"
    using m finish_decision_Inr by (auto simp: minimax_decision_def)
  have d2: "\<forall>r g'. alphabeta_decision g ai dl t2 = Inr (r, g') \<longrightarrow>
        fst (snd r) = metrics s2 \<and> snd (snd r) = tracer s2"
    using a finish_decision_Inr by (auto simp: alphabeta_decision_def)
  from m a le lt d1 d2 show ?thesis by blast
qed

theorem alphabeta_expands_fewer_witness:
  "\<exists>bm1 bv1 s1 bm2 bv2 s2.
     minimax_search midgame 1 2 None = Inr (bm1, bv1, s1) \<and>
     alphabeta_search midgame 1 2 (Some fresh_tracer) = Inr (bm2, bv2, s2) \<and>
     pruned_total (Some fresh_tracer) = 0 \<and> pruned_total (tracer s2) = 36 \<and>
     nodes_expanded (metrics s2) = 13 \<and> 13 < nodes_expanded (metrics s1)"
proof -
  from alphabeta_expands_fewer[OF wf_midgame, of 1 2 None "Some fresh_tracer"]
  obtain bm1 bv1 s1 bm2 bv2 s2 where
    m: "minimax_search midgame 1 2 None = Inr (bm1, bv1, s1)" and
    a: "alphabeta_search midgame 1 2 (Some fresh_tracer) = Inr (bm2, bv2, s2)" and
    lt: "pruned_total (Some fresh_tracer) < pruned_total (tracer s2) \<longrightarrow>
           nodes_expanded (metrics s2) < nodes_expanded (metrics s1)"
    by blast
  from a alphabeta_midgame_2 have v: "pruned_total (tracer s2) = 36" "nodes_expanded (metrics s2) = 13"
    by (simp_all add: search_summary_def)
  have z: "pruned_total (Some fresh_tracer) = 0"
    by (simp add: pruned_total_def fresh_tracer_def)
  from lt v z have "13 < nodes_expanded (metrics s1)" by simp
  with m a v z show ?thesis by blast
qed

text \<open>
  Claim C8, as the code has it. For a well-shaped state with a legal move, both searches
  return and leave the state they were given with its last-move anchor cleared: the
  board and the turn owner are what they were, the last move is \<open>None\<close>.
\<close>

theorem search_restores_position:
  assumes "wf_game g" and "actions g \<noteq> []"
  shows "(\<exists>bm bv s. minimax_search g ai dl t = Inr (bm, bv, s) \<and> game s = g \<lparr> last_move := None \<rparr>) \<and>
         (\<exists>bm bv s. alphabeta_search g ai dl t = Inr (bm, bv, s) \<and> game s = g \<lparr> last_move := None \<rparr>) \<and>
         (\<forall>r g'. minimax_decision g ai dl t = Inr (r, g') \<longrightarrow>
            board g' = board g \<and> current_player g' = current_player g \<and> last_move g' = None) \<and>
         (\<forall>r g'. alphabeta_decision g ai dl t = Inr (r, g') \<longrightarrow>
            board g' = board g \<and> current_player g' = current_player g \<and> last_move g' = None)"
proof -
  from minimax_search_link[OF assms(1), of ai dl t] assms(2) obtain s1 where
    m: "minimax_search g ai dl t = Inr (fst (snd (mmt_search g ai dl)), fst (mmt_search g ai dl), s1)" and
    g1: "game s1 = g \<lparr> last_move := None \<rparr>"
    by blast
  from alphabeta_search_link[OF assms(1), of ai dl t] assms(2) obtain s2 where
    a: "alphabeta_search g ai dl t = Inr (fst (snd (abt_search g ai dl)), fst (abt_search g ai dl), s2)" and
    g2: "game s2 = g \<lparr> last_move := None \<rparr>"
    by blast
  have d1: "\<forall>r g'. minimax_decision g ai dl t = Inr (r, g') \<longrightarrow>
            board g' = board g \<and> current_player g' = current_player g \<and> last_move g' = None"
    using m g1 finish_decision_Inr by (auto simp: minimax_decision_def)
  have d2: "\<forall>r g'. alphabeta_decision g ai dl t = Inr (r, g') \<longrightarrow>
            board g' = board g \<and> current_player g' = current_player g \<and> last_move g' = None"
    using a g2 finish_decision_Inr by (auto simp: alphabeta_decision_def)
  from m g1 a g2 d1 d2 show ?thesis by blast
qed

theorem search_restores_position_witness:
  "(\<exists>bm bv s. minimax_search midgame 1 5 None = Inr (bm, bv, s) \<and> game s = midgame \<lparr> last_move := None \<rparr>) \<and>
   (\<exists>bm bv s. alphabeta_search midgame 1 5 None = Inr (bm, bv, s) \<and> game s = midgame \<lparr> last_move := None \<rparr>)"
  using search_restores_position[OF wf_midgame midgame_actions, of 1 5 None]
  by blast

text \<open>
  Claim C8 as stated fails: in the midgame position the last move is the disc of player
  -1 in column 5, and after either decision function has returned it is \<open>None\<close>.
\<close>

theorem search_anchor_counterexample:
  "map_option last_move (decision_game (minimax_decision midgame 1 0 None)) = Some None \<and>
   map_option last_move (decision_game (alphabeta_decision midgame 1 0 None)) = Some None \<and>
   last_move midgame = Some \<lparr> row = 5, col = 5, player = - 1 \<rparr>"
  by code_simp

text \<open>
  Claim C9. For a well-shaped state on a board of at most \<open>10^12\<close> cells with a legal
  move, and any depth limit, both decision functions return the same column, and it is
  one of the legal moves: in range, with an empty top cell.
\<close>

theorem chosen_column_legal:
  assumes "wf_game g" and "small_board g" and "actions g \<noteq> []"
  shows "\<exists>m. chosen_column (minimax_decision g ai dl t1) = Some m \<and>
             chosen_column (alphabeta_decision g ai dl t2) = Some m \<and>
             m \<in> set (actions g) \<and> 0 \<le> m \<and> m < int (cols g) \<and> board g ! 0 ! nat m = 0"
proof -
  from minimax_search_link[OF assms(1), of ai dl t1] obtain s1 where
    m: "minimax_search g ai dl t1 = Inr (fst (snd (mmt_search g ai dl)), fst (mmt_search g ai dl), s1)"
    by blast
  from alphabeta_search_link[OF assms(1), of ai dl t2] obtain s2 where
    a: "alphabeta_search g ai dl t2 = Inr (fst (snd (abt_search g ai dl)), fst (abt_search g ai dl), s2)"
    by blast
  from search_agree[OF assms(1) assms(2), of ai dl] have
    eq: "fst (snd (abt_search g ai dl)) = fst (snd (mmt_search g ai dl))" by simp
  from first_best_move[OF search_first_best[OF assms, of ai dl]] obtain c where
    c: "fst (snd (mmt_search g ai dl)) = Some c" "c \<in> set (actions g)" by blast
  from c(2) have "0 \<le> c \<and> c < int (cols g) \<and> board g ! 0 ! nat c = 0"
    by (simp add: mem_actions)
  with m a eq c show ?thesis
    by (simp add: minimax_decision_def alphabeta_decision_def chosen_column_finish)
qed

theorem chosen_column_legal_witness:
  "\<exists>m. chosen_column (minimax_decision midgame 1 5 None) = Some m \<and>
        chosen_column (alphabeta_decision midgame 1 5 (Some fresh_tracer)) = Some m \<and>
        m \<in> set (actions midgame) \<and> 0 \<le> m \<and> m < int (cols midgame) \<and> board midgame ! 0 ! nat m = 0"
  using chosen_column_legal[OF wf_midgame small_midgame midgame_actions, of 1 5 None "Some fresh_tracer"]
  by simp

text \<open>
  Claim C3. At a terminal state, each of the four nested functions returns at once, for
  any depth and depth limit (and any window), the value \<open>terminal_value\<close>: \<open>WIN_SCORE\<close> when
  the winner is \<open>ai\<close>, \<open>-WIN_SCORE\<close> when it is the opponent, 0 when there is no winner;
  \<open>evaluate\<close> has no part in it. Here \<open>ai\<close> is a player, so not 0.
\<close>

theorem terminal_leaf_value:
  assumes "terminal (game s)" and "ai \<noteq> 0"
  shows "mm_max_value ai dl d nid s = Inr (terminal_value (game s) ai, enter_node d s) \<and>
         mm_min_value ai dl d nid s = Inr (terminal_value (game s) ai, enter_node d s) \<and>
         ab_max_value ai dl d al be nid s = Inr (terminal_value (game s) ai, enter_node d s) \<and>
         ab_min_value ai dl d al be nid s = Inr (terminal_value (game s) ai, enter_node d s) \<and>
         (winner (game s) = ai \<longrightarrow> terminal_value (game s) ai = WIN_SCORE) \<and>
         (winner (game s) = - ai \<longrightarrow> terminal_value (game s) ai = - WIN_SCORE) \<and>
         (winner (game s) = 0 \<longrightarrow> terminal_value (game s) ai = 0)"
  using assms
  by (simp add: mm_max_value.simps mm_min_value.simps ab_max_value.simps ab_min_value.simps
      Let_def terminal_value_def)

lemma won_game_terminal:
  "terminal won_game \<and> winner won_game = 1"
  by code_simp

theorem terminal_leaf_value_witness:
  "terminal won_game \<and> winner won_game = 1 \<and>
   mm_min_value 1 5 1 None \<lparr> game = won_game, metrics = \<lparr> nodes_expanded = 0, max_depth_reached = 0 \<rparr>, tracer = None \<rparr>
     = Inr (1000000000, \<lparr> game = won_game, metrics = \<lparr> nodes_expanded = 1, max_depth_reached = 1 \<rparr>, tracer = None \<rparr>) \<and>
   ab_min_value (- 1) 0 1 (- INF_VAL) INF_VAL None \<lparr> game = won_game, metrics = \<lparr> nodes_expanded = 0, max_depth_reached = 0 \<rparr>, tracer = None \<rparr>
     = Inr (- 1000000000, \<lparr> game = won_game, metrics = \<lparr> nodes_expanded = 1, max_depth_reached = 1 \<rparr>, tracer = None \<rparr>)"
  using terminal_leaf_value[of "\<lparr> game = won_game, metrics = \<lparr> nodes_expanded = 0, max_depth_reached = 0 \<rparr>, tracer = None \<rparr>" 1 5 1 None]
    terminal_leaf_value[of "\<lparr> game = won_game, metrics = \<lparr> nodes_expanded = 0, max_depth_reached = 0 \<rparr>, tracer = None \<rparr>" "- 1" 0 1 None "- INF_VAL" INF_VAL]
    won_game_terminal
  by (simp add: enter_node_def WIN_SCORE_def)

end
